theory Spec2Isabelle
  imports Main "HOL-Library.Word" "HOL-Library.Multiset"
begin

section \<open>Data model\<close>

text \<open>
  Modelled from the spec: the header \<^verbatim>\<open>os_graph.h\<close>, which declares the status of a
  node, is not among the sources. A status is one of \<^verbatim>\<open>NOT_VISITED\<close>, \<^verbatim>\<open>PROCESSING\<close>
  and \<^verbatim>\<open>DONE\<close>, the three names \<^verbatim>\<open>parallel.c\<close> uses; the specification calls
  \<^verbatim>\<open>PROCESSING\<close> the CLAIMED status.
\<close>

datatype os_visited = NOT_VISITED | PROCESSING | DONE

text \<open>
  Modelled from the spec: \<^verbatim>\<open>os_node_t\<close> and \<^verbatim>\<open>os_graph_t\<close> are declared in
  \<^verbatim>\<open>os_graph.h\<close>, not among the sources. A node has an integer weight, \<^verbatim>\<open>info\<close>,
  which \<^verbatim>\<open>execute\<close> adds to the \<^verbatim>\<open>static int sum\<close> and which is read here as a C
  \<^verbatim>\<open>int\<close> of 32 bits, and the array \<^verbatim>\<open>neighbours\<close> of \<^verbatim>\<open>num_neighbours\<close> node
  indices, here a list. The graph (\<^verbatim>\<open>graph->nodes\<close>) is the list of its nodes and is
  never written after construction.
\<close>

record os_node =
  info :: "32 word"
  neighbours :: "nat list"

type_synonym os_graph = "os_node list"

text \<open>
  Modelled from the spec: \<^verbatim>\<open>os_task_t\<close> is declared in \<^verbatim>\<open>os_threadpool.h\<close>, not among
  the sources. A task has the three fields that \<^verbatim>\<open>create_task\<close> sets: an action, an
  argument and an optional destructor of the argument. The only action of the program is
  \<^verbatim>\<open>execute\<close>, the only destructor is \<^verbatim>\<open>free\<close>; the argument is a
  \<^verbatim>\<open>graph_task_args_t\<close>, whose one field is the node index.
\<close>

datatype task_action = Execute

datatype arg_destructor = Free

record os_task =
  action :: task_action
  argument :: nat
  destroy_arg :: "arg_destructor option"

datatype thread_id = Main_thread | Worker_thread nat

text \<open>
  Control points of a worker thread, running \<^verbatim>\<open>thread_loop_function\<close>. A thread is
  observed only where it is about to take a lock, holds one, is blocked or has returned.
\<close>

datatype worker_pc =
    W_dequeue_lock
  | W_dequeue_test
  | W_cond_wait
  | W_execute_lock os_task
  | W_execute_for os_task nat
  | W_enqueue_lock os_task nat os_task
  | W_enqueue_held os_task nat os_task
  | W_execute_unlock os_task
  | W_exited

text \<open>Control points of the main thread, from \<^verbatim>\<open>process_node\<close> to the final print.\<close>

datatype main_pc =
    M_process_node_lock nat
  | M_enqueue_lock os_task
  | M_enqueue_held os_task
  | M_process_node_unlock
  | M_wait_lock
  | M_wait_held
  | M_join nat
  | M_destroy
  | M_done

text \<open>
  The shared memory of the process: the globals of \<^verbatim>\<open>parallel.c\<close> (\<^verbatim>\<open>sum\<close>,
  \<^verbatim>\<open>graph->visited\<close>, \<^verbatim>\<open>graph_mutex\<close>), the fields of the thread pool (\<^verbatim>\<open>head\<close>,
  \<^verbatim>\<open>tasks_added\<close>, \<^verbatim>\<open>mutex\<close>, \<^verbatim>\<open>threads\<close>; the threads blocked on \<^verbatim>\<open>cond\<close> are
  those at \<open>W_cond_wait\<close>), and the control point of the main thread. \<open>spurious\<close> bounds
  the spurious wake-ups the condition variable may still deliver. The last five fields
  are history variables that no guard reads: the calls of \<^verbatim>\<open>create_task\<close>, the node
  index of every task passed to \<^verbatim>\<open>enqueue_task\<close>, the node index of every addition to
  \<^verbatim>\<open>sum\<close>, the calls of a task's argument destructor and the tasks freed.
\<close>

record state =
  sum_v :: "32 word"
  visited :: "os_visited list"
  graph_mutex :: "thread_id option"
  head :: "os_task list"
  tasks_added :: nat
  mutex :: "thread_id option"
  threads :: "worker_pc list"
  main_pc :: main_pc
  spurious :: nat
  created :: nat
  enqueued :: "nat list"
  accumulated :: "nat list"
  args_destroyed :: nat
  tasks_freed :: nat

section \<open>The task queue (os\_threadpool.c)\<close>

definition create_task :: "task_action \<Rightarrow> nat \<Rightarrow> arg_destructor option \<Rightarrow> os_task" where
  "create_task a arg d = \<lparr>action = a, argument = arg, destroy_arg = d\<rparr>"

text \<open>\<^verbatim>\<open>destroy_task\<close>: the argument's destructor runs when there is one, then the task is freed.\<close>

definition destroy_task :: "os_task \<Rightarrow> state \<Rightarrow> state" where
  "destroy_task t s =
     (let s1 = (case destroy_arg t of
                  Some Free \<Rightarrow> s\<lparr>args_destroyed := args_destroyed s + 1\<rparr>
                | None \<Rightarrow> s)
      in s1\<lparr>tasks_freed := tasks_freed s1 + 1\<rparr>)"

text \<open>The indices of the threads blocked in \<^verbatim>\<open>pthread_cond_wait\<close>.\<close>

definition waiting :: "worker_pc list \<Rightarrow> nat list" where
  "waiting ws = filter (\<lambda>w. ws ! w = W_cond_wait) [0..<length ws]"

text \<open>
  \<^verbatim>\<open>pthread_cond_signal\<close> unblocks one of the blocked threads when there is one (which
  one is the scheduler's choice \<open>pick\<close>); the thread then has to take the mutex again.
  \<^verbatim>\<open>pthread_cond_broadcast\<close> unblocks all of them.
\<close>

definition cond_signal :: "nat \<Rightarrow> worker_pc list \<Rightarrow> worker_pc list" where
  "cond_signal pick ws =
     (case waiting ws of
        [] \<Rightarrow> ws
      | v # vs \<Rightarrow> ws[(v # vs) ! (pick mod length (v # vs)) := W_dequeue_lock])"

definition cond_broadcast :: "worker_pc list \<Rightarrow> worker_pc list" where
  "cond_broadcast ws = map (\<lambda>p. if p = W_cond_wait then W_dequeue_lock else p) ws"

text \<open>
  \<^verbatim>\<open>enqueue_task\<close> once the mutex is held (lines 45 to 57): append at the tail, count
  the task, signal, unlock.
\<close>

definition enqueue_task :: "os_task \<Rightarrow> nat \<Rightarrow> state \<Rightarrow> state" where
  "enqueue_task t pick s =
     s\<lparr>head := head s @ [t],
       tasks_added := tasks_added s + 1,
       enqueued := enqueued s @ [argument t],
       threads := cond_signal pick (threads s),
       mutex := None\<rparr>"

text \<open>
  Modelled from the spec: the list operations of \<^verbatim>\<open>os_list.h\<close> (\<^verbatim>\<open>list_empty\<close>,
  \<^verbatim>\<open>list_add_tail\<close>, \<^verbatim>\<open>list_del\<close>, \<^verbatim>\<open>list_entry\<close>, \<^verbatim>\<open>list_for_each_safe\<close>) are not
  among the sources. The queue is the sequence of its tasks: \<^verbatim>\<open>list_add_tail\<close> appends
  at the tail, \<^verbatim>\<open>tp->head.next\<close> is the first task, \<^verbatim>\<open>list_del\<close> removes a task, and
  \<^verbatim>\<open>list_for_each_safe\<close> visits every task once, from the first to the last.
\<close>

definition queue_is_empty :: "state \<Rightarrow> bool" where
  "queue_is_empty s = (head s = [])"

text \<open>
  \<^verbatim>\<open>dequeue_task\<close> with the mutex held. \<open>dequeue_wait\<close> is the test of the
  \<^verbatim>\<open>while\<close> of line 87; \<open>dequeue_take\<close> is the code after the loop (lines 90 to 107);
  \<open>dequeue_task\<close> is one pass from the test: the thread blocks in
  \<^verbatim>\<open>pthread_cond_wait\<close>, which releases the mutex, or leaves the loop and returns.
\<close>

datatype dequeue_result = Blocked | Returned "os_task option"

definition dequeue_wait :: "state \<Rightarrow> bool" where
  "dequeue_wait s = (queue_is_empty s \<and> tasks_added s = 0)"

definition dequeue_take :: "state \<Rightarrow> os_task option \<times> state" where
  "dequeue_take s =
     (if \<not> queue_is_empty s
      then (Some (hd (head s)), s\<lparr>head := tl (head s), mutex := None\<rparr>)
      else (None, s\<lparr>mutex := None\<rparr>))"

definition dequeue_task :: "state \<Rightarrow> dequeue_result \<times> state" where
  "dequeue_task s =
     (if dequeue_wait s then (Blocked, s\<lparr>mutex := None\<rparr>)
      else (Returned (fst (dequeue_take s)), snd (dequeue_take s)))"

text \<open>
  \<^verbatim>\<open>destroy_threadpool\<close>: the loop \<^verbatim>\<open>list_for_each_safe\<close> unlinks and destroys every
  task still in the queue.
\<close>

fun destroy_loop :: "os_task list \<Rightarrow> state \<Rightarrow> state" where
  "destroy_loop [] s = s"
| "destroy_loop (t # ts) s = destroy_loop ts (destroy_task t (s\<lparr>head := ts\<rparr>))"

definition destroy_threadpool :: "state \<Rightarrow> state" where
  "destroy_threadpool s = destroy_loop (head s) s"

section \<open>The traversal (parallel.c)\<close>

text \<open>
  \<^verbatim>\<open>execute\<close>, from the lock of line 31 to the test of line 35 and the two writes under
  it. The step waits for \<^verbatim>\<open>graph_mutex\<close>; an index outside the arrays has no defined
  behaviour in C and no step here.
\<close>

definition execute_enter :: "os_graph \<Rightarrow> nat \<Rightarrow> os_task \<Rightarrow> state \<Rightarrow> state option" where
  "execute_enter g w t s =
     (if graph_mutex s = None \<and> argument t < length (visited s) \<and> argument t < length g
      then
        (if visited s ! argument t = PROCESSING
         then Some (s\<lparr>graph_mutex := Some (Worker_thread w),
                      sum_v := sum_v s + info (g ! argument t),
                      accumulated := accumulated s @ [argument t],
                      visited := (visited s)[argument t := DONE],
                      threads := (threads s)[w := W_execute_for t 0]\<rparr>)
         else Some (s\<lparr>graph_mutex := Some (Worker_thread w),
                      threads := (threads s)[w := W_execute_unlock t]\<rparr>))
      else None)"

text \<open>One pass of the \<^verbatim>\<open>for\<close> of line 43, up to the call of \<^verbatim>\<open>enqueue_task\<close>.\<close>

definition execute_for :: "os_graph \<Rightarrow> nat \<Rightarrow> os_task \<Rightarrow> nat \<Rightarrow> state \<Rightarrow> state option" where
  "execute_for g w t i s =
     (if argument t < length g
      then
        (if i < length (neighbours (g ! argument t))
         then
           (if neighbours (g ! argument t) ! i < length (visited s)
            then
              (if visited s ! (neighbours (g ! argument t) ! i) = NOT_VISITED
               then Some (s\<lparr>visited := (visited s)[neighbours (g ! argument t) ! i := PROCESSING],
                            created := created s + 1,
                            threads := (threads s)[w := W_enqueue_lock t i
                              (create_task Execute (neighbours (g ! argument t) ! i) (Some Free))]\<rparr>)
               else Some (s\<lparr>threads := (threads s)[w := W_execute_for t (i + 1)]\<rparr>))
            else None)
         else Some (s\<lparr>threads := (threads s)[w := W_execute_unlock t]\<rparr>))
      else None)"

text \<open>
  \<^verbatim>\<open>thread_loop_function\<close>: one step of worker \<open>w\<close>. \<open>None\<close>: the thread cannot move
  (it waits for a mutex or on the condition variable, or it has returned).
\<close>

definition thread_loop_function :: "os_graph \<Rightarrow> nat \<Rightarrow> nat \<Rightarrow> state \<Rightarrow> state option" where
  "thread_loop_function g w pick s =
     (if w < length (threads s)
      then
        (case threads s ! w of
           W_dequeue_lock \<Rightarrow>
             (if mutex s = None
              then Some (s\<lparr>mutex := Some (Worker_thread w),
                           threads := (threads s)[w := W_dequeue_test]\<rparr>)
              else None)
         | W_dequeue_test \<Rightarrow>
             (case dequeue_task s of
                (Blocked, s') \<Rightarrow> Some (s'\<lparr>threads := (threads s')[w := W_cond_wait]\<rparr>)
              | (Returned None, s') \<Rightarrow> Some (s'\<lparr>threads := (threads s')[w := W_exited]\<rparr>)
              | (Returned (Some t), s') \<Rightarrow>
                  Some (s'\<lparr>threads := (threads s')[w := W_execute_lock t]\<rparr>))
         | W_cond_wait \<Rightarrow> None
         | W_execute_lock t \<Rightarrow> execute_enter g w t s
         | W_execute_for t i \<Rightarrow> execute_for g w t i s
         | W_enqueue_lock t i nt \<Rightarrow>
             (if mutex s = None
              then Some (s\<lparr>mutex := Some (Worker_thread w),
                           threads := (threads s)[w := W_enqueue_held t i nt]\<rparr>)
              else None)
         | W_enqueue_held t i nt \<Rightarrow>
             Some ((enqueue_task nt pick s)
                     \<lparr>threads := (cond_signal pick (threads s))[w := W_execute_for t (i + 1)]\<rparr>)
         | W_execute_unlock t \<Rightarrow>
             Some ((destroy_task t (s\<lparr>graph_mutex := None\<rparr>))
                     \<lparr>threads := (threads s)[w := W_dequeue_lock]\<rparr>)
         | W_exited \<Rightarrow> None)
      else None)"

text \<open>
  The main thread: \<^verbatim>\<open>process_node\<close>, \<^verbatim>\<open>wait_for_completion\<close> (broadcast, then one
  \<^verbatim>\<open>pthread_join\<close> per worker, in order), \<^verbatim>\<open>destroy_threadpool\<close> and the print.
\<close>

definition main_step :: "nat \<Rightarrow> state \<Rightarrow> state option" where
  "main_step pick s =
     (case main_pc s of
        M_process_node_lock idx \<Rightarrow>
          (if graph_mutex s = None \<and> idx < length (visited s)
           then Some (s\<lparr>graph_mutex := Some Main_thread,
                        visited := (visited s)[idx := PROCESSING],
                        created := created s + 1,
                        main_pc := M_enqueue_lock (create_task Execute idx (Some Free))\<rparr>)
           else None)
      | M_enqueue_lock t \<Rightarrow>
          (if mutex s = None
           then Some (s\<lparr>mutex := Some Main_thread, main_pc := M_enqueue_held t\<rparr>)
           else None)
      | M_enqueue_held t \<Rightarrow> Some ((enqueue_task t pick s)\<lparr>main_pc := M_process_node_unlock\<rparr>)
      | M_process_node_unlock \<Rightarrow> Some (s\<lparr>graph_mutex := None, main_pc := M_wait_lock\<rparr>)
      | M_wait_lock \<Rightarrow>
          (if mutex s = None
           then Some (s\<lparr>mutex := Some Main_thread, main_pc := M_wait_held\<rparr>)
           else None)
      | M_wait_held \<Rightarrow>
          Some (s\<lparr>threads := cond_broadcast (threads s), mutex := None, main_pc := M_join 0\<rparr>)
      | M_join i \<Rightarrow>
          (if i < length (threads s)
           then (if threads s ! i = W_exited then Some (s\<lparr>main_pc := M_join (i + 1)\<rparr>) else None)
           else Some (s\<lparr>main_pc := M_destroy\<rparr>))
      | M_destroy \<Rightarrow> Some ((destroy_threadpool s)\<lparr>main_pc := M_done\<rparr>)
      | M_done \<Rightarrow> None)"

section \<open>Interleavings\<close>

text \<open>
  A schedule is a list of events: a step of the main thread, a step of a worker, or a
  spurious wake-up of a blocked worker. The number of a step resolves the choice of
  \<^verbatim>\<open>pthread_cond_signal\<close>.
\<close>

datatype event = Main_step nat | Worker_step nat nat | Spurious_wakeup nat

definition spurious_wakeup :: "nat \<Rightarrow> state \<Rightarrow> state option" where
  "spurious_wakeup w s =
     (if w < length (threads s) \<and> threads s ! w = W_cond_wait \<and> 0 < spurious s
      then Some (s\<lparr>spurious := spurious s - 1, threads := (threads s)[w := W_dequeue_lock]\<rparr>)
      else None)"

fun step :: "os_graph \<Rightarrow> event \<Rightarrow> state \<Rightarrow> state option" where
  "step g (Main_step pick) s = main_step pick s"
| "step g (Worker_step w pick) s = thread_loop_function g w pick s"
| "step g (Spurious_wakeup w) s = spurious_wakeup w s"

fun run :: "os_graph \<Rightarrow> event list \<Rightarrow> state \<Rightarrow> state option" where
  "run g [] s = Some s"
| "run g (e # es) s = (case step g e s of None \<Rightarrow> None | Some s' \<Rightarrow> run g es s')"

text \<open>
  The state in which \<^verbatim>\<open>main\<close> calls \<^verbatim>\<open>process_node(0)\<close>: \<^verbatim>\<open>sum\<close> is a static, hence
  zero; \<^verbatim>\<open>create_threadpool\<close> has started \<open>n\<close> workers on an empty queue.
  Modelled from the spec: \<^verbatim>\<open>create_graph_from_file\<close> is not among the sources; every
  node starts \<^verbatim>\<open>NOT_VISITED\<close>.
\<close>

definition create_threadpool :: "os_graph \<Rightarrow> nat \<Rightarrow> nat \<Rightarrow> state" where
  "create_threadpool g n k =
     \<lparr>sum_v = 0, visited = replicate (length g) NOT_VISITED, graph_mutex = None,
      head = [], tasks_added = 0, mutex = None, threads = replicate n W_dequeue_lock,
      main_pc = M_process_node_lock 0, spurious = k, created = 0, enqueued = [],
      accumulated = [], args_destroyed = 0, tasks_freed = 0\<rparr>"

definition NUM_THREADS :: nat where
  "NUM_THREADS = 4"

section \<open>Invariants, measures and example runs: definitions\<close>

datatype queue_op = Enqueue os_task nat | Dequeue

fun queue_run :: "queue_op list \<Rightarrow> state \<Rightarrow> os_task list \<times> state" where
  "queue_run [] s = ([], s)"
| "queue_run (Enqueue t pick # ops) s = queue_run ops (enqueue_task t pick s)"
| "queue_run (Dequeue # ops) s =
     (case dequeue_task s of
        (Returned (Some t), s') \<Rightarrow> (t # fst (queue_run ops s'), snd (queue_run ops s'))
      | (_, s') \<Rightarrow> queue_run ops s')"

fun enqueues :: "queue_op list \<Rightarrow> os_task list" where
  "enqueues [] = []"
| "enqueues (Enqueue t pick # ops) = t # enqueues ops"
| "enqueues (Dequeue # ops) = enqueues ops"

fun holds_mutex :: "worker_pc \<Rightarrow> bool" where
  "holds_mutex W_dequeue_test = True"
| "holds_mutex (W_enqueue_held t i nt) = True"
| "holds_mutex _ = False"

fun holds_graph_mutex :: "worker_pc \<Rightarrow> bool" where
  "holds_graph_mutex (W_execute_for t i) = True"
| "holds_graph_mutex (W_enqueue_lock t i nt) = True"
| "holds_graph_mutex (W_enqueue_held t i nt) = True"
| "holds_graph_mutex (W_execute_unlock t) = True"
| "holds_graph_mutex _ = False"

fun main_holds_mutex :: "main_pc \<Rightarrow> bool" where
  "main_holds_mutex (M_enqueue_held t) = True"
| "main_holds_mutex M_wait_held = True"
| "main_holds_mutex _ = False"

fun main_holds_graph_mutex :: "main_pc \<Rightarrow> bool" where
  "main_holds_graph_mutex (M_enqueue_lock t) = True"
| "main_holds_graph_mutex (M_enqueue_held t) = True"
| "main_holds_graph_mutex M_process_node_unlock = True"
| "main_holds_graph_mutex _ = False"

definition holders :: "(worker_pc \<Rightarrow> bool) \<Rightarrow> bool \<Rightarrow> worker_pc list \<Rightarrow> nat" where
  "holders hw hm ws = length (filter hw ws) + (if hm then 1 else 0)"

definition count_inv :: "state \<Rightarrow> bool" where
  "count_inv s \<longleftrightarrow>
     holders holds_mutex (main_holds_mutex (main_pc s)) (threads s) =
       (case mutex s of None \<Rightarrow> 0 | Some t \<Rightarrow> 1) \<and>
     holders holds_graph_mutex (main_holds_graph_mutex (main_pc s)) (threads s) =
       (case graph_mutex s of None \<Rightarrow> 0 | Some t \<Rightarrow> 1)"

definition holder_ok :: "thread_id option \<Rightarrow> (worker_pc \<Rightarrow> bool) \<Rightarrow> bool \<Rightarrow> worker_pc list \<Rightarrow> bool" where
  "holder_ok m hw hm ws =
     (case m of
        None \<Rightarrow> True
      | Some Main_thread \<Rightarrow> hm
      | Some (Worker_thread w) \<Rightarrow> w < length ws \<and> hw (ws ! w))"

definition holder_inv :: "state \<Rightarrow> bool" where
  "holder_inv s \<longleftrightarrow>
     holder_ok (mutex s) holds_mutex (main_holds_mutex (main_pc s)) (threads s) \<and>
     holder_ok (graph_mutex s) holds_graph_mutex (main_holds_graph_mutex (main_pc s)) (threads s)"

fun pc_tasks :: "worker_pc \<Rightarrow> os_task list" where
  "pc_tasks (W_execute_lock t) = [t]"
| "pc_tasks (W_execute_for t i) = [t]"
| "pc_tasks (W_enqueue_lock t i nt) = [t, nt]"
| "pc_tasks (W_enqueue_held t i nt) = [t, nt]"
| "pc_tasks (W_execute_unlock t) = [t]"
| "pc_tasks _ = []"

fun main_tasks :: "main_pc \<Rightarrow> os_task list" where
  "main_tasks (M_enqueue_lock t) = [t]"
| "main_tasks (M_enqueue_held t) = [t]"
| "main_tasks _ = []"

definition task_ok :: "os_graph \<Rightarrow> os_visited list \<Rightarrow> os_task \<Rightarrow> bool" where
  "task_ok g vis t \<longleftrightarrow>
     argument t < length g \<and> vis ! argument t \<noteq> NOT_VISITED \<and>
     destroy_arg t = Some Free \<and> action t = Execute"

definition pc_ok :: "os_graph \<Rightarrow> os_visited list \<Rightarrow> worker_pc \<Rightarrow> bool" where
  "pc_ok g vis p = list_all (task_ok g vis) (pc_tasks p)"

definition tasks_inv :: "os_graph \<Rightarrow> state \<Rightarrow> bool" where
  "tasks_inv g s \<longleftrightarrow>
     length (visited s) = length g \<and>
     list_all (task_ok g (visited s)) (head s) \<and>
     list_all (pc_ok g (visited s)) (threads s) \<and>
     list_all (task_ok g (visited s)) (main_tasks (main_pc s))"

fun main_early :: "main_pc \<Rightarrow> bool" where
  "main_early (M_process_node_lock idx) = True"
| "main_early (M_enqueue_lock t) = True"
| "main_early (M_enqueue_held t) = True"
| "main_early _ = False"

fun main_late :: "main_pc \<Rightarrow> bool" where
  "main_late (M_join i) = True"
| "main_late M_destroy = True"
| "main_late M_done = True"
| "main_late _ = False"

fun idle :: "worker_pc \<Rightarrow> bool" where
  "idle W_dequeue_lock = True"
| "idle W_dequeue_test = True"
| "idle W_cond_wait = True"
| "idle _ = False"

definition phase_inv :: "state \<Rightarrow> bool" where
  "phase_inv s \<longleftrightarrow>
     threads s \<noteq> [] \<and>
     main_early (main_pc s) = (tasks_added s = 0) \<and>
     (main_early (main_pc s) \<longrightarrow> head s = [] \<and> list_all idle (threads s)) \<and>
     (case main_pc s of
        M_process_node_lock idx \<Rightarrow>
          idx = 0 \<and> list_all (\<lambda>v. v = NOT_VISITED) (visited s) \<and> created s = 0 \<and>
          enqueued s = [] \<and> accumulated s = []
      | _ \<Rightarrow> True) \<and>
     (main_late (main_pc s) \<longrightarrow> list_all (\<lambda>p. p \<noteq> W_cond_wait) (threads s)) \<and>
     (head s \<noteq> [] \<longrightarrow> \<not> list_all (\<lambda>p. p = W_exited) (threads s))"

definition join_inv :: "state \<Rightarrow> bool" where
  "join_inv s \<longleftrightarrow>
     (case main_pc s of
        M_join i \<Rightarrow> (\<forall>w<i. w < length (threads s) \<longrightarrow> threads s ! w = W_exited)
      | M_destroy \<Rightarrow> list_all (\<lambda>p. p = W_exited) (threads s)
      | M_done \<Rightarrow> list_all (\<lambda>p. p = W_exited) (threads s)
      | _ \<Rightarrow> True)"

inductive_set reach :: "os_graph \<Rightarrow> nat set" for g :: os_graph where
  start: "0 \<in> reach g"
| edge: "i \<in> reach g \<Longrightarrow> i < length g \<Longrightarrow> j \<in> set (neighbours (g ! i)) \<Longrightarrow> j \<in> reach g"

definition with_status :: "os_visited \<Rightarrow> os_visited list \<Rightarrow> nat set" where
  "with_status v vis = {j. j < length vis \<and> vis ! j = v}"

definition acc_inv :: "os_graph \<Rightarrow> state \<Rightarrow> bool" where
  "acc_inv g s \<longleftrightarrow>
     distinct (accumulated s) \<and>
     set (accumulated s) = with_status DONE (visited s) \<and>
     sum_v s = sum_list (map (\<lambda>j. info (g ! j)) (accumulated s))"

fun pend_w :: "worker_pc \<Rightarrow> nat set" where
  "pend_w (W_execute_lock t) = {argument t}"
| "pend_w (W_enqueue_lock t i nt) = {argument nt}"
| "pend_w (W_enqueue_held t i nt) = {argument nt}"
| "pend_w _ = {}"

fun pend_m :: "main_pc \<Rightarrow> nat set" where
  "pend_m (M_enqueue_lock t) = {argument t}"
| "pend_m (M_enqueue_held t) = {argument t}"
| "pend_m _ = {}"

definition pending :: "state \<Rightarrow> nat set" where
  "pending s = argument ` set (head s) \<union> \<Union> (pend_w ` set (threads s)) \<union> pend_m (main_pc s)"

definition pend_inv :: "state \<Rightarrow> bool" where
  "pend_inv s \<longleftrightarrow> with_status PROCESSING (visited s) \<subseteq> pending s"

definition reach_inv :: "os_graph \<Rightarrow> state \<Rightarrow> bool" where
  "reach_inv g s \<longleftrightarrow> (\<forall>j<length (visited s). visited s ! j \<noteq> NOT_VISITED \<longrightarrow> j \<in> reach g)"

definition seed_inv :: "state \<Rightarrow> bool" where
  "seed_inv s \<longleftrightarrow>
     (case main_pc s of
        M_process_node_lock idx \<Rightarrow> True
      | _ \<Rightarrow> 0 < length (visited s) \<and> visited s ! 0 \<noteq> NOT_VISITED)"

fun scanning :: "nat \<Rightarrow> nat \<Rightarrow> worker_pc \<Rightarrow> bool" where
  "scanning j k (W_execute_for t i) = (argument t = j \<and> i \<le> k)"
| "scanning j k (W_enqueue_lock t i nt) = (argument t = j \<and> i < k)"
| "scanning j k (W_enqueue_held t i nt) = (argument t = j \<and> i < k)"
| "scanning j k _ = False"

definition edge_ok :: "os_graph \<Rightarrow> state \<Rightarrow> nat \<Rightarrow> nat \<Rightarrow> bool" where
  "edge_ok g s j k \<longleftrightarrow>
     (j < length (visited s) \<and> visited s ! j = DONE \<and> k < length (neighbours (g ! j)) \<longrightarrow>
        neighbours (g ! j) ! k < length (visited s) \<and>
        visited s ! (neighbours (g ! j) ! k) \<noteq> NOT_VISITED \<or>
        list_ex (scanning j k) (threads s))"

definition closed_inv :: "os_graph \<Rightarrow> state \<Rightarrow> bool" where
  "closed_inv g s \<longleftrightarrow> (\<forall>j k. edge_ok g s j k)"

fun new_w :: "worker_pc \<Rightarrow> nat list" where
  "new_w (W_enqueue_lock t i nt) = [argument nt]"
| "new_w (W_enqueue_held t i nt) = [argument nt]"
| "new_w _ = []"

fun new_m :: "main_pc \<Rightarrow> nat list" where
  "new_m (M_enqueue_lock t) = [argument t]"
| "new_m (M_enqueue_held t) = [argument t]"
| "new_m _ = []"

definition inflight :: "state \<Rightarrow> nat list" where
  "inflight s = concat (map new_w (threads s)) @ new_m (main_pc s)"

definition enq_inv :: "state \<Rightarrow> bool" where
  "enq_inv s \<longleftrightarrow>
     distinct (enqueued s @ inflight s) \<and>
     set (enqueued s @ inflight s) \<subseteq> {j. j < length (visited s)} - with_status NOT_VISITED (visited s) \<and>
     created s = length (enqueued s) + length (inflight s) \<and>
     tasks_added s = length (enqueued s)"

definition owned :: "state \<Rightarrow> nat" where
  "owned s = length (head s) + sum_list (map (\<lambda>p. length (pc_tasks p)) (threads s)) +
     length (main_tasks (main_pc s))"

definition free_inv :: "state \<Rightarrow> bool" where
  "free_inv s \<longleftrightarrow> created s = tasks_freed s + owned s \<and> args_destroyed s = tasks_freed s"

definition invariant :: "os_graph \<Rightarrow> state \<Rightarrow> bool" where
  "invariant g s \<longleftrightarrow>
     count_inv s \<and> holder_inv s \<and> tasks_inv g s \<and> phase_inv s \<and> join_inv s \<and>
     acc_inv g s \<and> pend_inv s \<and> reach_inv g s \<and> seed_inv s \<and> closed_inv g s \<and>
     enq_inv s \<and> free_inv s"

definition degree :: "os_graph \<Rightarrow> nat \<Rightarrow> nat" where
  "degree g j = length (neighbours (g ! j))"

text \<open>Steps a task can still cause once it is in the queue.\<close>

definition task_cost :: "os_graph \<Rightarrow> os_task \<Rightarrow> nat" where
  "task_cost g t = 5 + degree g (argument t)"

fun worker_cost :: "os_graph \<Rightarrow> worker_pc \<Rightarrow> nat" where
  "worker_cost g W_dequeue_lock = 2"
| "worker_cost g W_dequeue_test = 1"
| "worker_cost g W_cond_wait = 0"
| "worker_cost g (W_execute_lock t) = task_cost g t"
| "worker_cost g (W_execute_for t i) = 4 + (degree g (argument t) - i)"
| "worker_cost g (W_enqueue_lock t i nt) =
     4 + (degree g (argument t) - (i + 1)) + task_cost g nt + 4"
| "worker_cost g (W_enqueue_held t i nt) =
     4 + (degree g (argument t) - (i + 1)) + task_cost g nt + 3"
| "worker_cost g (W_execute_unlock t) = 3"
| "worker_cost g W_exited = 0"

fun main_cost :: "os_graph \<Rightarrow> nat \<Rightarrow> main_pc \<Rightarrow> nat" where
  "main_cost g n (M_process_node_lock idx) = 3 * n + 15 + degree g idx"
| "main_cost g n (M_enqueue_lock t) = 3 * n + 9 + task_cost g t"
| "main_cost g n (M_enqueue_held t) = 3 * n + 8 + task_cost g t"
| "main_cost g n M_process_node_unlock = 3 * n + 5"
| "main_cost g n M_wait_lock = 3 * n + 4"
| "main_cost g n M_wait_held = 3 * n + 3"
| "main_cost g n (M_join i) = 2 + (n - i)"
| "main_cost g n M_destroy = 1"
| "main_cost g n M_done = 0"

definition claim_cost :: "os_graph \<Rightarrow> os_visited list \<Rightarrow> nat" where
  "claim_cost g vis =
     sum_list (map (\<lambda>j. if vis ! j = NOT_VISITED then 9 + degree g j else 0) [0..<length vis])"

definition potential :: "os_graph \<Rightarrow> state \<Rightarrow> nat" where
  "potential g s =
     claim_cost g (visited s) + sum_list (map (task_cost g) (head s)) +
     sum_list (map (worker_cost g) (threads s)) +
     main_cost g (length (threads s)) (main_pc s) + 3 * spurious s"

definition wf_graph :: "os_graph \<Rightarrow> bool" where
  "wf_graph g \<longleftrightarrow> g \<noteq> [] \<and> list_all (\<lambda>node. list_all (\<lambda>j. j < length g) (neighbours node)) g"

fun runnable :: "os_graph \<Rightarrow> state \<Rightarrow> worker_pc \<Rightarrow> bool" where
  "runnable g s W_dequeue_lock = (mutex s = None)"
| "runnable g s W_dequeue_test = True"
| "runnable g s W_cond_wait = False"
| "runnable g s (W_execute_lock t) =
     (graph_mutex s = None \<and> argument t < length (visited s) \<and> argument t < length g)"
| "runnable g s (W_execute_for t i) =
     (argument t < length g \<and>
      (i < length (neighbours (g ! argument t)) \<longrightarrow>
         neighbours (g ! argument t) ! i < length (visited s)))"
| "runnable g s (W_enqueue_lock t i nt) = (mutex s = None)"
| "runnable g s (W_enqueue_held t i nt) = True"
| "runnable g s (W_execute_unlock t) = True"
| "runnable g s W_exited = False"

fun main_runnable :: "state \<Rightarrow> main_pc \<Rightarrow> bool" where
  "main_runnable s (M_process_node_lock idx) = (graph_mutex s = None \<and> idx < length (visited s))"
| "main_runnable s (M_enqueue_lock t) = (mutex s = None)"
| "main_runnable s (M_enqueue_held t) = True"
| "main_runnable s M_process_node_unlock = True"
| "main_runnable s M_wait_lock = (mutex s = None)"
| "main_runnable s M_wait_held = True"
| "main_runnable s (M_join i) = (i < length (threads s) \<longrightarrow> threads s ! i = W_exited)"
| "main_runnable s M_destroy = True"
| "main_runnable s M_done = False"

fun thread_of :: "event \<Rightarrow> thread_id" where
  "thread_of (Main_step pick) = Main_thread"
| "thread_of (Worker_step w pick) = Worker_thread w"
| "thread_of (Spurious_wakeup w) = Worker_thread w"

fun in_enqueue_task :: "state \<Rightarrow> thread_id \<Rightarrow> bool" where
  "in_enqueue_task s Main_thread =
     (case main_pc s of M_enqueue_lock t \<Rightarrow> True | M_enqueue_held t \<Rightarrow> True | _ \<Rightarrow> False)"
| "in_enqueue_task s (Worker_thread w) =
     (w < length (threads s) \<and>
      (case threads s ! w of
         W_enqueue_lock t i nt \<Rightarrow> True
       | W_enqueue_held t i nt \<Rightarrow> True
       | _ \<Rightarrow> False))"

definition cycle_graph :: os_graph where
  "cycle_graph = [\<lparr>info = 1, neighbours = [1]\<rparr>, \<lparr>info = 2, neighbours = [0]\<rparr>]"

definition cycle_schedule :: "event list" where
  "cycle_schedule =
     [Main_step 0, Main_step 0, Main_step 0, Main_step 0, Main_step 0, Main_step 0,
      Worker_step 0 0, Worker_step 0 0, Worker_step 0 0, Worker_step 0 0,
      Worker_step 0 0, Worker_step 0 0, Worker_step 0 0, Worker_step 0 0,
      Worker_step 0 0, Worker_step 0 0, Worker_step 0 0, Worker_step 0 0,
      Worker_step 0 0, Worker_step 0 0, Worker_step 0 0, Worker_step 0 0,
      Main_step 0, Main_step 0, Main_step 0]"

definition cycle_done :: state where
  "cycle_done =
     \<lparr>sum_v = 3, visited = [DONE, DONE], graph_mutex = None, head = [],
      tasks_added = 2, mutex = None, threads = [W_exited], main_pc = M_done,
      spurious = 0, created = 2, enqueued = [0, 1], accumulated = [0, 1],
      args_destroyed = 2, tasks_freed = 2\<rparr>"

definition pool_schedule :: "event list" where
  "pool_schedule =
     [Worker_step 0 0, Worker_step 0 0, Worker_step 1 1, Worker_step 1 1,
      Spurious_wakeup 1, Worker_step 1 1, Worker_step 1 1, Spurious_wakeup 1,
      Worker_step 1 1, Worker_step 1 1, Main_step 1, Main_step 1, Main_step 1,
      Worker_step 1 1, Worker_step 1 1, Main_step 1, Worker_step 1 1,
      Worker_step 1 1, Worker_step 1 1, Worker_step 1 1, Worker_step 0 0,
      Worker_step 0 0, Worker_step 1 1, Worker_step 1 1, Worker_step 0 0,
      Worker_step 0 0, Worker_step 0 0, Worker_step 0 0, Worker_step 0 0,
      Worker_step 0 0, Worker_step 1 1, Worker_step 1 1, Main_step 1,
      Main_step 1, Main_step 1, Main_step 1, Main_step 1, Main_step 1]"

definition pool_done :: state where
  "pool_done =
     \<lparr>sum_v = 3, visited = [DONE, DONE], graph_mutex = None, head = [],
      tasks_added = 2, mutex = None, threads = [W_exited, W_exited], main_pc = M_done,
      spurious = 0, created = 2, enqueued = [0, 1], accumulated = [0, 1],
      args_destroyed = 2, tasks_freed = 2\<rparr>"

text \<open>
  A prefix of \<open>pool_schedule\<close>: worker 1 has added the weight of node 0 and is about to
  look at its neighbour, node 1. \<open>claim_before\<close>, \<open>claim_after\<close> and \<open>claim_locked\<close> are
  the states before the claim of node 1, after it, and once the queue mutex is taken for
  the new task.
\<close>

definition claim_schedule :: "event list" where
  "claim_schedule =
     [Worker_step 0 0, Worker_step 0 0, Worker_step 1 1, Worker_step 1 1,
      Spurious_wakeup 1, Worker_step 1 1, Worker_step 1 1, Spurious_wakeup 1,
      Worker_step 1 1, Worker_step 1 1, Main_step 1, Main_step 1, Main_step 1,
      Worker_step 1 1, Worker_step 1 1, Main_step 1, Worker_step 1 1]"

definition claim_before :: state where
  "claim_before =
     \<lparr>sum_v = 1, visited = [DONE, NOT_VISITED], graph_mutex = Some (Worker_thread 1),
      head = [], tasks_added = 1, mutex = None,
      threads = [W_cond_wait, W_execute_for (create_task Execute 0 (Some Free)) 0],
      main_pc = M_wait_lock, spurious = 0, created = 1, enqueued = [0],
      accumulated = [0], args_destroyed = 0, tasks_freed = 0\<rparr>"

definition claim_after :: state where
  "claim_after =
     \<lparr>sum_v = 1, visited = [DONE, PROCESSING], graph_mutex = Some (Worker_thread 1),
      head = [], tasks_added = 1, mutex = None,
      threads = [W_cond_wait,
        W_enqueue_lock (create_task Execute 0 (Some Free)) 0 (create_task Execute 1 (Some Free))],
      main_pc = M_wait_lock, spurious = 0, created = 2, enqueued = [0],
      accumulated = [0], args_destroyed = 0, tasks_freed = 0\<rparr>"

definition claim_locked :: state where
  "claim_locked = claim_after\<lparr>mutex := Some (Worker_thread 1),
     threads := [W_cond_wait,
       W_enqueue_held (create_task Execute 0 (Some Free)) 0 (create_task Execute 1 (Some Free))]\<rparr>"

text \<open>A pool about to be destroyed with two tasks left in its queue, one without destructor.\<close>

definition leftover :: state where
  "leftover = cycle_done\<lparr>head := [create_task Execute 0 (Some Free), create_task Execute 1 None],
     main_pc := M_destroy\<rparr>"

text \<open>
  Two workers hold tasks for nodes that are not \<^verbatim>\<open>PROCESSING\<close>: node 0 is \<^verbatim>\<open>DONE\<close>,
  node 1 is \<^verbatim>\<open>NOT_VISITED\<close>.
\<close>

definition stale_state :: state where
  "stale_state =
     \<lparr>sum_v = 3, visited = [DONE, NOT_VISITED], graph_mutex = None,
      head = [create_task Execute 1 (Some Free)], tasks_added = 3, mutex = None,
      threads = [W_execute_lock (create_task Execute 0 (Some Free)),
                 W_execute_lock (create_task Execute 1 (Some Free))],
      main_pc = M_join 0, spurious = 0, created = 3, enqueued = [0, 0, 1], accumulated = [0],
      args_destroyed = 0, tasks_freed = 0\<rparr>"

text \<open>\<^verbatim>\<open>process_node(0)\<close> called once more after the traversal of the cycle, with one idle worker.\<close>

definition reseed_state :: state where
  "reseed_state = cycle_done\<lparr>threads := [W_dequeue_lock], main_pc := M_process_node_lock 0\<rparr>"

text \<open>Two nodes whose weights add up to \<open>2 ^ 31\<close>, one more than \<^verbatim>\<open>INT_MAX\<close>.\<close>

definition wrap_graph :: os_graph where
  "wrap_graph = [\<lparr>info = 2147483647, neighbours = [1]\<rparr>, \<lparr>info = 1, neighbours = []\<rparr>]"

definition wrap_schedule :: "event list" where
  "wrap_schedule =
     [Main_step 0, Main_step 0, Main_step 0, Main_step 0, Main_step 0, Main_step 0,
      Worker_step 0 0, Worker_step 0 0, Worker_step 0 0, Worker_step 0 0,
      Worker_step 0 0, Worker_step 0 0, Worker_step 0 0, Worker_step 0 0,
      Worker_step 0 0, Worker_step 0 0, Worker_step 0 0, Worker_step 0 0,
      Worker_step 0 0, Worker_step 0 0, Worker_step 0 0,
      Main_step 0, Main_step 0, Main_step 0]"

definition wrap_before :: state where
  "wrap_before =
     \<lparr>sum_v = 2147483647, visited = [DONE, PROCESSING], graph_mutex = None,
      head = [], tasks_added = 2, mutex = None,
      threads = [W_execute_lock (create_task Execute 1 (Some Free))],
      main_pc = M_join 0, spurious = 0, created = 2, enqueued = [0, 1],
      accumulated = [0], args_destroyed = 1, tasks_freed = 1\<rparr>"

definition wrap_done :: state where
  "wrap_done =
     \<lparr>sum_v = 2147483648, visited = [DONE, DONE], graph_mutex = None,
      head = [], tasks_added = 2, mutex = None, threads = [W_exited],
      main_pc = M_done, spurious = 0, created = 2, enqueued = [0, 1],
      accumulated = [0, 1], args_destroyed = 2, tasks_freed = 2\<rparr>"

text \<open>
  A prefix of \<open>pool_schedule\<close>: both workers are blocked in \<^verbatim>\<open>pthread_cond_wait\<close> and the
  main thread is about to enqueue the task of node 0; its signal wakes worker 1.
\<close>

definition wake_schedule :: "event list" where
  "wake_schedule =
     [Worker_step 0 0, Worker_step 0 0, Worker_step 1 1, Worker_step 1 1,
      Spurious_wakeup 1, Worker_step 1 1, Worker_step 1 1, Spurious_wakeup 1,
      Worker_step 1 1, Worker_step 1 1, Main_step 1, Main_step 1]"

definition wake_before :: state where
  "wake_before =
     \<lparr>sum_v = 0, visited = [PROCESSING, NOT_VISITED], graph_mutex = Some Main_thread,
      head = [], tasks_added = 0, mutex = Some Main_thread,
      threads = [W_cond_wait, W_cond_wait],
      main_pc = M_enqueue_held (create_task Execute 0 (Some Free)),
      spurious = 0, created = 1, enqueued = [], accumulated = [],
      args_destroyed = 0, tasks_freed = 0\<rparr>"

definition wake_after :: state where
  "wake_after =
     \<lparr>sum_v = 0, visited = [PROCESSING, NOT_VISITED], graph_mutex = Some Main_thread,
      head = [create_task Execute 0 (Some Free)], tasks_added = 1, mutex = None,
      threads = [W_cond_wait, W_dequeue_lock],
      main_pc = M_process_node_unlock,
      spurious = 0, created = 1, enqueued = [0], accumulated = [],
      args_destroyed = 0, tasks_freed = 0\<rparr>"

text \<open>The control point at which the main thread is about to seed a node.\<close>

fun seeds :: "main_pc \<Rightarrow> bool" where
  "seeds (M_process_node_lock idx) = True"
| "seeds _ = False"

text \<open>
  One worker and no task yet: the worker is blocked in \<^verbatim>\<open>pthread_cond_wait\<close>
  (\<open>blocked_state\<close>), or has been woken and is about to take the mutex again
  (\<open>woken_state\<close>), while the queue is still empty and the counter still zero.
\<close>

definition blocked_state :: state where
  "blocked_state =
     \<lparr>sum_v = 0, visited = [NOT_VISITED, NOT_VISITED], graph_mutex = None,
      head = [], tasks_added = 0, mutex = None, threads = [W_cond_wait],
      main_pc = M_process_node_lock 0, spurious = 0, created = 0,
      enqueued = [], accumulated = [], args_destroyed = 0, tasks_freed = 0\<rparr>"

definition woken_state :: state where
  "woken_state = blocked_state\<lparr>threads := [W_dequeue_lock]\<rparr>"

text \<open>
  The cycle after \<^verbatim>\<open>process_node(0)\<close>, with one worker that has not run yet: node 0 is
  \<^verbatim>\<open>PROCESSING\<close> and its task is in the queue. In \<open>reclaim_state\<close> the main thread calls
  \<^verbatim>\<open>process_node(0)\<close> once more; \<open>reclaim_schedule\<close> lets it finish the call and then
  runs the worker until it returns, in \<open>reclaim_done\<close>.
\<close>

definition seeded_state :: state where
  "seeded_state =
     \<lparr>sum_v = 0, visited = [PROCESSING, NOT_VISITED], graph_mutex = None,
      head = [create_task Execute 0 (Some Free)], tasks_added = 1, mutex = None,
      threads = [W_dequeue_lock], main_pc = M_wait_lock, spurious = 0,
      created = 1, enqueued = [0], accumulated = [], args_destroyed = 0, tasks_freed = 0\<rparr>"

definition reclaim_state :: state where
  "reclaim_state = seeded_state\<lparr>main_pc := M_process_node_lock 0\<rparr>"

definition reclaim_schedule :: "event list" where
  "reclaim_schedule =
     [Main_step 0, Main_step 0, Main_step 0,
      Worker_step 0 0, Worker_step 0 0, Worker_step 0 0, Worker_step 0 0,
      Worker_step 0 0, Worker_step 0 0, Worker_step 0 0, Worker_step 0 0,
      Worker_step 0 0, Worker_step 0 0, Worker_step 0 0, Worker_step 0 0,
      Worker_step 0 0, Worker_step 0 0, Worker_step 0 0, Worker_step 0 0,
      Worker_step 0 0, Worker_step 0 0, Worker_step 0 0, Worker_step 0 0]"

definition reclaim_done :: state where
  "reclaim_done =
     \<lparr>sum_v = 3, visited = [DONE, DONE], graph_mutex = None, head = [],
      tasks_added = 3, mutex = None, threads = [W_exited],
      main_pc = M_wait_lock, spurious = 0, created = 3, enqueued = [0, 0, 1],
      accumulated = [0, 1], args_destroyed = 3, tasks_freed = 3\<rparr>"

section \<open>Lemmas\<close>

lemma dequeue_task_cases:
  "dequeue_task s =
     (if head s = [] then (if tasks_added s = 0 then Blocked else Returned None, s\<lparr>mutex := None\<rparr>)
      else (Returned (Some (hd (head s))), s\<lparr>head := tl (head s), mutex := None\<rparr>))"
  by (simp add: dequeue_task_def dequeue_wait_def dequeue_take_def queue_is_empty_def)

lemma queue_run_fifo:
  "fst (queue_run ops s) @ head (snd (queue_run ops s)) = head s @ enqueues ops"
proof (induction ops s rule: queue_run.induct)
  case (1 s)
  then show ?case by simp
next
  case (2 t pick ops s)
  then show ?case by (simp add: enqueue_task_def)
next
  case (3 ops s)
  show ?case
  proof (cases "head s")
    case Nil
    then show ?thesis using 3 by (simp add: dequeue_task_cases)
  next
    case (Cons t ts)
    then show ?thesis using 3 by (simp add: dequeue_task_cases)
  qed
qed

lemma destroy_task_fields [simp]:
  "sum_v (destroy_task t s) = sum_v s"
  "visited (destroy_task t s) = visited s"
  "graph_mutex (destroy_task t s) = graph_mutex s"
  "head (destroy_task t s) = head s"
  "tasks_added (destroy_task t s) = tasks_added s"
  "mutex (destroy_task t s) = mutex s"
  "threads (destroy_task t s) = threads s"
  "main_pc (destroy_task t s) = main_pc s"
  "spurious (destroy_task t s) = spurious s"
  "created (destroy_task t s) = created s"
  "enqueued (destroy_task t s) = enqueued s"
  "accumulated (destroy_task t s) = accumulated s"
  "tasks_freed (destroy_task t s) = tasks_freed s + 1"
  "args_destroyed (destroy_task t s) = args_destroyed s + (if destroy_arg t = None then 0 else 1)"
  by (simp_all add: destroy_task_def Let_def split: option.split arg_destructor.split)

lemma destroy_loop_fields:
  "sum_v (destroy_loop ts s) = sum_v s"
  "visited (destroy_loop ts s) = visited s"
  "graph_mutex (destroy_loop ts s) = graph_mutex s"
  "tasks_added (destroy_loop ts s) = tasks_added s"
  "mutex (destroy_loop ts s) = mutex s"
  "threads (destroy_loop ts s) = threads s"
  "main_pc (destroy_loop ts s) = main_pc s"
  "spurious (destroy_loop ts s) = spurious s"
  "created (destroy_loop ts s) = created s"
  "enqueued (destroy_loop ts s) = enqueued s"
  "accumulated (destroy_loop ts s) = accumulated s"
  "tasks_freed (destroy_loop ts s) = tasks_freed s + length ts"
  "args_destroyed (destroy_loop ts s) = args_destroyed s + length (filter (\<lambda>t. destroy_arg t \<noteq> None) ts)"
  by (induction ts arbitrary: s; simp)+

lemma destroy_loop_head: "head (destroy_loop ts s) = (if ts = [] then head s else [])"
  by (induction ts arbitrary: s) auto

lemma destroy_threadpool_fields [simp]:
  "sum_v (destroy_threadpool s) = sum_v s"
  "visited (destroy_threadpool s) = visited s"
  "graph_mutex (destroy_threadpool s) = graph_mutex s"
  "head (destroy_threadpool s) = []"
  "tasks_added (destroy_threadpool s) = tasks_added s"
  "mutex (destroy_threadpool s) = mutex s"
  "threads (destroy_threadpool s) = threads s"
  "main_pc (destroy_threadpool s) = main_pc s"
  "spurious (destroy_threadpool s) = spurious s"
  "created (destroy_threadpool s) = created s"
  "enqueued (destroy_threadpool s) = enqueued s"
  "accumulated (destroy_threadpool s) = accumulated s"
  "tasks_freed (destroy_threadpool s) = tasks_freed s + length (head s)"
  "args_destroyed (destroy_threadpool s) =
     args_destroyed s + length (filter (\<lambda>t. destroy_arg t \<noteq> None) (head s))"
  by (simp_all add: destroy_threadpool_def destroy_loop_fields destroy_loop_head)

lemma cond_signal_cases:
  "cond_signal pick ws = ws \<or>
   (\<exists>v. v < length ws \<and> ws ! v = W_cond_wait \<and> cond_signal pick ws = ws[v := W_dequeue_lock])"
proof (cases "waiting ws")
  case Nil
  then show ?thesis by (simp add: cond_signal_def)
next
  case (Cons v vs)
  define u where "u = (v # vs) ! (pick mod length (v # vs))"
  have "u \<in> set (waiting ws)"
    unfolding u_def Cons by (rule nth_mem) simp
  then have "u < length ws \<and> ws ! u = W_cond_wait"
    by (simp add: waiting_def)
  moreover have "cond_signal pick ws = ws[u := W_dequeue_lock]"
    by (simp add: cond_signal_def Cons u_def)
  ultimately show ?thesis by blast
qed

lemma worker_step_cases [consumes 1, case_names dequeue_lock dequeue_block dequeue_none
    dequeue_some execute_add execute_skip for_claim for_next for_exit enqueue_lock
    enqueue_quiet enqueue_wake execute_unlock]:
  assumes "thread_loop_function g w pick s = Some s'"
  obtains
    (dequeue_lock) "w < length (threads s)" "threads s ! w = W_dequeue_lock" "mutex s = None"
      "s' = s\<lparr>mutex := Some (Worker_thread w), threads := (threads s)[w := W_dequeue_test]\<rparr>"
  | (dequeue_block) "w < length (threads s)" "threads s ! w = W_dequeue_test"
      "head s = []" "tasks_added s = 0"
      "s' = s\<lparr>mutex := None, threads := (threads s)[w := W_cond_wait]\<rparr>"
  | (dequeue_none) "w < length (threads s)" "threads s ! w = W_dequeue_test"
      "head s = []" "tasks_added s \<noteq> 0"
      "s' = s\<lparr>mutex := None, threads := (threads s)[w := W_exited]\<rparr>"
  | (dequeue_some) t ts where "w < length (threads s)" "threads s ! w = W_dequeue_test"
      "head s = t # ts"
      "s' = s\<lparr>head := ts, mutex := None, threads := (threads s)[w := W_execute_lock t]\<rparr>"
  | (execute_add) t where "w < length (threads s)" "threads s ! w = W_execute_lock t"
      "graph_mutex s = None" "argument t < length (visited s)" "argument t < length g"
      "visited s ! argument t = PROCESSING"
      "s' = s\<lparr>graph_mutex := Some (Worker_thread w),
                sum_v := sum_v s + info (g ! argument t),
                accumulated := accumulated s @ [argument t],
                visited := (visited s)[argument t := DONE],
                threads := (threads s)[w := W_execute_for t 0]\<rparr>"
  | (execute_skip) t where "w < length (threads s)" "threads s ! w = W_execute_lock t"
      "graph_mutex s = None" "argument t < length (visited s)" "argument t < length g"
      "visited s ! argument t \<noteq> PROCESSING"
      "s' = s\<lparr>graph_mutex := Some (Worker_thread w),
                threads := (threads s)[w := W_execute_unlock t]\<rparr>"
  | (for_claim) t i where "w < length (threads s)" "threads s ! w = W_execute_for t i"
      "argument t < length g" "i < length (neighbours (g ! argument t))"
      "neighbours (g ! argument t) ! i < length (visited s)"
      "visited s ! (neighbours (g ! argument t) ! i) = NOT_VISITED"
      "s' = s\<lparr>visited := (visited s)[neighbours (g ! argument t) ! i := PROCESSING],
                created := created s + 1,
                threads := (threads s)[w := W_enqueue_lock t i
                  (create_task Execute (neighbours (g ! argument t) ! i) (Some Free))]\<rparr>"
  | (for_next) t i where "w < length (threads s)" "threads s ! w = W_execute_for t i"
      "argument t < length g" "i < length (neighbours (g ! argument t))"
      "neighbours (g ! argument t) ! i < length (visited s)"
      "visited s ! (neighbours (g ! argument t) ! i) \<noteq> NOT_VISITED"
      "s' = s\<lparr>threads := (threads s)[w := W_execute_for t (i + 1)]\<rparr>"
  | (for_exit) t i where "w < length (threads s)" "threads s ! w = W_execute_for t i"
      "argument t < length g" "\<not> i < length (neighbours (g ! argument t))"
      "s' = s\<lparr>threads := (threads s)[w := W_execute_unlock t]\<rparr>"
  | (enqueue_lock) t i nt where "w < length (threads s)" "threads s ! w = W_enqueue_lock t i nt"
      "mutex s = None"
      "s' = s\<lparr>mutex := Some (Worker_thread w),
                threads := (threads s)[w := W_enqueue_held t i nt]\<rparr>"
  | (enqueue_quiet) t i nt where "w < length (threads s)" "threads s ! w = W_enqueue_held t i nt"
      "s' = s\<lparr>head := head s @ [nt], tasks_added := tasks_added s + 1,
                enqueued := enqueued s @ [argument nt], mutex := None,
                threads := (threads s)[w := W_execute_for t (i + 1)]\<rparr>"
  | (enqueue_wake) t i nt v where "w < length (threads s)" "threads s ! w = W_enqueue_held t i nt"
      "v < length (threads s)" "threads s ! v = W_cond_wait"
      "s' = s\<lparr>head := head s @ [nt], tasks_added := tasks_added s + 1,
                enqueued := enqueued s @ [argument nt], mutex := None,
                threads := (threads s)[v := W_dequeue_lock, w := W_execute_for t (i + 1)]\<rparr>"
  | (execute_unlock) t where "w < length (threads s)" "threads s ! w = W_execute_unlock t"
      "s' = (destroy_task t (s\<lparr>graph_mutex := None\<rparr>))
               \<lparr>threads := (threads s)[w := W_dequeue_lock]\<rparr>"
proof -
  from assms have w: "w < length (threads s)"
    by (simp add: thread_loop_function_def split: if_splits)
  show thesis
  proof (cases "threads s ! w")
    case W_dequeue_lock
    then show ?thesis using assms w dequeue_lock
      by (simp add: thread_loop_function_def split: if_splits)
  next
    case W_dequeue_test
    then show ?thesis using assms w dequeue_block dequeue_none dequeue_some [of "hd (head s)" "tl (head s)"]
      by (cases "head s") (auto simp add: thread_loop_function_def dequeue_task_cases split: if_splits)
  next
    case W_cond_wait
    then show ?thesis using assms w by (simp add: thread_loop_function_def)
  next
    case (W_execute_lock t)
    then show ?thesis using assms w execute_add [of t] execute_skip [of t]
      by (simp add: thread_loop_function_def execute_enter_def split: if_splits)
  next
    case (W_execute_for t i)
    then show ?thesis using assms w for_claim [of t i] for_next [of t i] for_exit [of t i]
      by (simp add: thread_loop_function_def execute_for_def split: if_splits)
  next
    case (W_enqueue_lock t i nt)
    then show ?thesis using assms w enqueue_lock [of t i nt]
      by (simp add: thread_loop_function_def split: if_splits)
  next
    case (W_enqueue_held t i nt)
    from cond_signal_cases [of pick "threads s"] show ?thesis
    proof
      assume "cond_signal pick (threads s) = threads s"
      then show ?thesis using assms w W_enqueue_held enqueue_quiet [of t i nt]
        by (simp add: thread_loop_function_def enqueue_task_def)
    next
      assume "\<exists>v. v < length (threads s) \<and> threads s ! v = W_cond_wait \<and>
                cond_signal pick (threads s) = (threads s)[v := W_dequeue_lock]"
      then obtain v where "v < length (threads s)" "threads s ! v = W_cond_wait"
        "cond_signal pick (threads s) = (threads s)[v := W_dequeue_lock]" by blast
      then show ?thesis using assms w W_enqueue_held enqueue_wake [of t i nt v]
        by (simp add: thread_loop_function_def enqueue_task_def)
    qed
  next
    case (W_execute_unlock t)
    then show ?thesis using assms w execute_unlock [of t]
      by (simp add: thread_loop_function_def)
  next
    case W_exited
    then show ?thesis using assms w by (simp add: thread_loop_function_def)
  qed
qed

lemma main_step_cases [consumes 1, case_names seed seed_lock seed_quiet seed_wake seed_unlock
    wait_lock broadcast join joined destroy]:
  assumes "main_step pick s = Some s'"
  obtains
    (seed) idx where "main_pc s = M_process_node_lock idx" "graph_mutex s = None"
      "idx < length (visited s)"
      "s' = s\<lparr>graph_mutex := Some Main_thread, visited := (visited s)[idx := PROCESSING],
                created := created s + 1,
                main_pc := M_enqueue_lock (create_task Execute idx (Some Free))\<rparr>"
  | (seed_lock) t where "main_pc s = M_enqueue_lock t" "mutex s = None"
      "s' = s\<lparr>mutex := Some Main_thread, main_pc := M_enqueue_held t\<rparr>"
  | (seed_quiet) t where "main_pc s = M_enqueue_held t"
      "s' = s\<lparr>head := head s @ [t], tasks_added := tasks_added s + 1,
                enqueued := enqueued s @ [argument t], mutex := None,
                main_pc := M_process_node_unlock\<rparr>"
  | (seed_wake) t v where "main_pc s = M_enqueue_held t"
      "v < length (threads s)" "threads s ! v = W_cond_wait"
      "s' = s\<lparr>head := head s @ [t], tasks_added := tasks_added s + 1,
                enqueued := enqueued s @ [argument t], mutex := None,
                threads := (threads s)[v := W_dequeue_lock],
                main_pc := M_process_node_unlock\<rparr>"
  | (seed_unlock) "main_pc s = M_process_node_unlock"
      "s' = s\<lparr>graph_mutex := None, main_pc := M_wait_lock\<rparr>"
  | (wait_lock) "main_pc s = M_wait_lock" "mutex s = None"
      "s' = s\<lparr>mutex := Some Main_thread, main_pc := M_wait_held\<rparr>"
  | (broadcast) "main_pc s = M_wait_held"
      "s' = s\<lparr>threads := cond_broadcast (threads s), mutex := None, main_pc := M_join 0\<rparr>"
  | (join) i where "main_pc s = M_join i" "i < length (threads s)" "threads s ! i = W_exited"
      "s' = s\<lparr>main_pc := M_join (i + 1)\<rparr>"
  | (joined) i where "main_pc s = M_join i" "\<not> i < length (threads s)"
      "s' = s\<lparr>main_pc := M_destroy\<rparr>"
  | (destroy) "main_pc s = M_destroy"
      "s' = (destroy_threadpool s)\<lparr>main_pc := M_done\<rparr>"
proof (cases "main_pc s")
  case (M_process_node_lock idx)
  then show ?thesis using assms seed [of idx] by (simp add: main_step_def split: if_splits)
next
  case (M_enqueue_lock t)
  then show ?thesis using assms seed_lock [of t] by (simp add: main_step_def split: if_splits)
next
  case (M_enqueue_held t)
  from cond_signal_cases [of pick "threads s"] show ?thesis
  proof
    assume "cond_signal pick (threads s) = threads s"
    then show ?thesis using assms M_enqueue_held seed_quiet [of t]
      by (simp add: main_step_def enqueue_task_def)
  next
    assume "\<exists>v. v < length (threads s) \<and> threads s ! v = W_cond_wait \<and>
              cond_signal pick (threads s) = (threads s)[v := W_dequeue_lock]"
    then obtain v where "v < length (threads s)" "threads s ! v = W_cond_wait"
      "cond_signal pick (threads s) = (threads s)[v := W_dequeue_lock]" by blast
    then show ?thesis using assms M_enqueue_held seed_wake [of t v]
      by (auto simp add: main_step_def enqueue_task_def)
  qed
next
  case M_process_node_unlock
  then show ?thesis using assms seed_unlock by (simp add: main_step_def)
next
  case M_wait_lock
  then show ?thesis using assms wait_lock by (simp add: main_step_def split: if_splits)
next
  case M_wait_held
  then show ?thesis using assms broadcast by (simp add: main_step_def)
next
  case (M_join i)
  then show ?thesis using assms join [of i] joined [of i] by (simp add: main_step_def split: if_splits)
next
  case M_destroy
  then show ?thesis using assms destroy by (simp add: main_step_def)
next
  case M_done
  then show ?thesis using assms by (simp add: main_step_def)
qed

lemma zipper:
  assumes "w < length ws" "ws ! w = p"
  shows "\<exists>a b. ws = a @ p # b \<and> w = length a \<and> (\<forall>q. ws[w := q] = a @ q # b)"
proof (intro exI conjI allI)
  show "ws = take w ws @ p # drop (Suc w) ws"
    using id_take_nth_drop [OF assms(1)] assms(2) by simp
  show "w = length (take w ws)" using assms(1) by simp
  show "ws[w := q] = take w ws @ q # drop (Suc w) ws" for q
    using assms(1) by (rule upd_conv_take_nth_drop)
qed

lemma zipper_less:
  assumes "i < j" "j < length xs" "xs ! i = p" "xs ! j = q"
  shows "\<exists>a b c. xs = a @ p # b @ q # c \<and> i = length a \<and> j = length a + 1 + length b \<and>
           (\<forall>x y. xs[i := x, j := y] = a @ x # b @ y # c)"
proof -
  from assms have i: "i < length xs" by simp
  from zipper [OF i assms(3)] obtain a r where
    a: "xs = a @ p # r" "i = length a" "\<forall>x. xs[i := x] = a @ x # r" by blast
  define k where "k = j - Suc i"
  have "length xs = Suc (length a + length r)" by (simp add: a(1))
  with assms(1,2) a(2) have k: "k < length r" "j = length a + 1 + k"
    by (simp_all add: k_def)
  have rk: "r ! k = q"
    using assms(4) by (simp add: a(1) k(2) nth_append)
  from zipper [OF k(1) rk] obtain b c where
    b: "r = b @ q # c" "k = length b" "\<forall>y. r[k := y] = b @ y # c" by blast
  have "xs[i := x, j := y] = a @ x # b @ y # c" for x y
  proof -
    have "xs[i := x, j := y] = (a @ x # r)[j := y]" using a(3) by simp
    also have "\<dots> = a @ x # r[k := y]" by (simp add: k(2) list_update_append)
    also have "\<dots> = a @ x # b @ y # c" using b(3) by simp
    finally show ?thesis .
  qed
  moreover have "xs = a @ p # b @ q # c"
    by (simp add: a(1) b(1))
  moreover have "j = length a + 1 + length b"
    using k(2) b(2) by simp
  ultimately show ?thesis using a(2) by blast
qed

lemma zipper2:
  assumes "v < length ws" "w < length ws" "v \<noteq> w" "ws ! v = p" "ws ! w = q"
  shows "(\<exists>a b c. ws = a @ p # b @ q # c \<and> v = length a \<and>
            w = length a + 1 + length b \<and>
            (\<forall>x y. ws[v := x, w := y] = a @ x # b @ y # c)) \<or>
         (\<exists>a b c. ws = a @ q # b @ p # c \<and> w = length a \<and>
            v = length a + 1 + length b \<and>
            (\<forall>x y. ws[v := x, w := y] = a @ y # b @ x # c))"
proof -
  from assms(3) consider "v < w" | "w < v" by linarith
  then show ?thesis
  proof cases
    case 1
    from zipper_less [OF 1 assms(2,4,5)] show ?thesis by blast
  next
    case 2
    from zipper_less [OF 2 assms(1,5,4)] obtain a b c where
      abc: "ws = a @ q # b @ p # c" "w = length a" "v = length a + 1 + length b"
      "\<forall>x y. ws[w := x, v := y] = a @ x # b @ y # c" by blast
    have "ws[v := x, w := y] = a @ y # b @ x # c" for x y
    proof -
      have "ws[v := x, w := y] = ws[w := y, v := x]"
        by (rule list_update_swap [OF assms(3)])
      also have "\<dots> = a @ y # b @ x # c" using abc(4) by blast
      finally show ?thesis .
    qed
    with abc(1,2,3) show ?thesis by blast
  qed
qed

lemma step_cases [consumes 1, case_names dequeue_lock dequeue_block dequeue_none dequeue_some execute_add execute_skip for_claim for_next for_exit enqueue_lock enqueue_quiet enqueue_wake_below enqueue_wake_above execute_unlock seed seed_lock seed_quiet seed_wake seed_unlock wait_lock broadcast join joined destroy spurious]:
  assumes "step g e s = Some s'"
  obtains
    (dequeue_lock) w pick a b where
      "e = Worker_step w pick"
      "threads s = a @ W_dequeue_lock # b"
      "w = length a"
      "mutex s = None"
      "s' = s\<lparr>mutex := Some (Worker_thread w), threads := a @ W_dequeue_test # b\<rparr>"
  | (dequeue_block) w pick a b where
      "e = Worker_step w pick"
      "threads s = a @ W_dequeue_test # b"
      "w = length a"
      "head s = []"
      "tasks_added s = 0"
      "s' = s\<lparr>mutex := None, threads := a @ W_cond_wait # b\<rparr>"
  | (dequeue_none) w pick a b where
      "e = Worker_step w pick"
      "threads s = a @ W_dequeue_test # b"
      "w = length a"
      "head s = []"
      "tasks_added s \<noteq> 0"
      "s' = s\<lparr>mutex := None, threads := a @ W_exited # b\<rparr>"
  | (dequeue_some) w pick t ts a b where
      "e = Worker_step w pick"
      "threads s = a @ W_dequeue_test # b"
      "w = length a"
      "head s = t # ts"
      "s' = s\<lparr>head := ts, mutex := None, threads := a @ W_execute_lock t # b\<rparr>"
  | (execute_add) w pick t a b where
      "e = Worker_step w pick"
      "threads s = a @ W_execute_lock t # b"
      "w = length a"
      "graph_mutex s = None"
      "argument t < length (visited s)"
      "argument t < length g"
      "visited s ! argument t = PROCESSING"
      "s' = s\<lparr>graph_mutex := Some (Worker_thread w),
                sum_v := sum_v s + info (g ! argument t),
                accumulated := accumulated s @ [argument t],
                visited := (visited s)[argument t := DONE],
                threads := a @ W_execute_for t 0 # b\<rparr>"
  | (execute_skip) w pick t a b where
      "e = Worker_step w pick"
      "threads s = a @ W_execute_lock t # b"
      "w = length a"
      "graph_mutex s = None"
      "argument t < length (visited s)"
      "argument t < length g"
      "visited s ! argument t \<noteq> PROCESSING"
      "s' = s\<lparr>graph_mutex := Some (Worker_thread w), threads := a @ W_execute_unlock t # b\<rparr>"
  | (for_claim) w pick t i a b where
      "e = Worker_step w pick"
      "threads s = a @ W_execute_for t i # b"
      "w = length a"
      "argument t < length g"
      "i < length (neighbours (g ! argument t))"
      "neighbours (g ! argument t) ! i < length (visited s)"
      "visited s ! (neighbours (g ! argument t) ! i) = NOT_VISITED"
      "s' = s\<lparr>visited := (visited s)[neighbours (g ! argument t) ! i := PROCESSING],
                created := created s + 1,
                threads := a @ W_enqueue_lock t i
                  (create_task Execute (neighbours (g ! argument t) ! i) (Some Free)) # b\<rparr>"
  | (for_next) w pick t i a b where
      "e = Worker_step w pick"
      "threads s = a @ W_execute_for t i # b"
      "w = length a"
      "argument t < length g"
      "i < length (neighbours (g ! argument t))"
      "neighbours (g ! argument t) ! i < length (visited s)"
      "visited s ! (neighbours (g ! argument t) ! i) \<noteq> NOT_VISITED"
      "s' = s\<lparr>threads := a @ W_execute_for t (i + 1) # b\<rparr>"
  | (for_exit) w pick t i a b where
      "e = Worker_step w pick"
      "threads s = a @ W_execute_for t i # b"
      "w = length a"
      "argument t < length g"
      "\<not> i < length (neighbours (g ! argument t))"
      "s' = s\<lparr>threads := a @ W_execute_unlock t # b\<rparr>"
  | (enqueue_lock) w pick t i nt a b where
      "e = Worker_step w pick"
      "threads s = a @ W_enqueue_lock t i nt # b"
      "w = length a"
      "mutex s = None"
      "s' = s\<lparr>mutex := Some (Worker_thread w), threads := a @ W_enqueue_held t i nt # b\<rparr>"
  | (enqueue_quiet) w pick t i nt a b where
      "e = Worker_step w pick"
      "threads s = a @ W_enqueue_held t i nt # b"
      "w = length a"
      "s' = s\<lparr>head := head s @ [nt], tasks_added := tasks_added s + 1,
                enqueued := enqueued s @ [argument nt], mutex := None,
                threads := a @ W_execute_for t (i + 1) # b\<rparr>"
  | (enqueue_wake_below) w pick t i nt a b c where
      "e = Worker_step w pick"
      "threads s = a @ W_cond_wait # b @ W_enqueue_held t i nt # c"
      "w = length a + 1 + length b"
      "s' = s\<lparr>head := head s @ [nt], tasks_added := tasks_added s + 1,
                enqueued := enqueued s @ [argument nt], mutex := None,
                threads := a @ W_dequeue_lock # b @ W_execute_for t (i + 1) # c\<rparr>"
  | (enqueue_wake_above) w pick t i nt a b c where
      "e = Worker_step w pick"
      "threads s = a @ W_enqueue_held t i nt # b @ W_cond_wait # c"
      "w = length a"
      "s' = s\<lparr>head := head s @ [nt], tasks_added := tasks_added s + 1,
                enqueued := enqueued s @ [argument nt], mutex := None,
                threads := a @ W_execute_for t (i + 1) # b @ W_dequeue_lock # c\<rparr>"
  | (execute_unlock) w pick t a b where
      "e = Worker_step w pick"
      "threads s = a @ W_execute_unlock t # b"
      "w = length a"
      "s' = (destroy_task t (s\<lparr>graph_mutex := None\<rparr>))\<lparr>threads := a @ W_dequeue_lock # b\<rparr>"
  | (seed) pick idx where
      "e = Main_step pick"
      "main_pc s = M_process_node_lock idx"
      "graph_mutex s = None"
      "idx < length (visited s)"
      "s' = s\<lparr>graph_mutex := Some Main_thread, visited := (visited s)[idx := PROCESSING],
                created := created s + 1,
                main_pc := M_enqueue_lock (create_task Execute idx (Some Free))\<rparr>"
  | (seed_lock) pick t where
      "e = Main_step pick"
      "main_pc s = M_enqueue_lock t"
      "mutex s = None"
      "s' = s\<lparr>mutex := Some Main_thread, main_pc := M_enqueue_held t\<rparr>"
  | (seed_quiet) pick t where
      "e = Main_step pick"
      "main_pc s = M_enqueue_held t"
      "s' = s\<lparr>head := head s @ [t], tasks_added := tasks_added s + 1,
                enqueued := enqueued s @ [argument t], mutex := None,
                main_pc := M_process_node_unlock\<rparr>"
  | (seed_wake) pick t a b where
      "e = Main_step pick"
      "main_pc s = M_enqueue_held t"
      "threads s = a @ W_cond_wait # b"
      "s' = s\<lparr>head := head s @ [t], tasks_added := tasks_added s + 1,
                enqueued := enqueued s @ [argument t], mutex := None,
                threads := a @ W_dequeue_lock # b,
                main_pc := M_process_node_unlock\<rparr>"
  | (seed_unlock) pick where
      "e = Main_step pick"
      "main_pc s = M_process_node_unlock"
      "s' = s\<lparr>graph_mutex := None, main_pc := M_wait_lock\<rparr>"
  | (wait_lock) pick where
      "e = Main_step pick"
      "main_pc s = M_wait_lock"
      "mutex s = None"
      "s' = s\<lparr>mutex := Some Main_thread, main_pc := M_wait_held\<rparr>"
  | (broadcast) pick where
      "e = Main_step pick"
      "main_pc s = M_wait_held"
      "s' = s\<lparr>threads := cond_broadcast (threads s), mutex := None, main_pc := M_join 0\<rparr>"
  | (join) pick a b where
      "e = Main_step pick"
      "main_pc s = M_join (length a)"
      "threads s = a @ W_exited # b"
      "s' = s\<lparr>main_pc := M_join (length a + 1)\<rparr>"
  | (joined) pick i where
      "e = Main_step pick"
      "main_pc s = M_join i"
      "\<not> i < length (threads s)"
      "s' = s\<lparr>main_pc := M_destroy\<rparr>"
  | (destroy) pick where
      "e = Main_step pick"
      "main_pc s = M_destroy"
      "s' = (destroy_threadpool s)\<lparr>main_pc := M_done\<rparr>"
  | (spurious) w a b where
      "e = Spurious_wakeup w"
      "threads s = a @ W_cond_wait # b"
      "w = length a"
      "0 < spurious s"
      "s' = s\<lparr>spurious := spurious s - 1, threads := a @ W_dequeue_lock # b\<rparr>"
proof (cases e)
  case (Main_step pick)
  with assms have "main_step pick s = Some s'" by simp
  then show ?thesis
  proof (cases rule: main_step_cases)
    case (seed idx)
    show ?thesis by (rule that(15) [OF Main_step seed])
  next
    case (seed_lock t)
    show ?thesis by (rule that(16) [OF Main_step seed_lock])
  next
    case (seed_quiet t)
    show ?thesis by (rule that(17) [OF Main_step seed_quiet])
  next
    case (seed_wake t v)
    from zipper [OF seed_wake(2,3)] obtain a b where
      z: "threads s = a @ W_cond_wait # b" "\<forall>p. (threads s)[v := p] = a @ p # b" by blast
    have "s' = s\<lparr>head := head s @ [t], tasks_added := tasks_added s + 1,
                enqueued := enqueued s @ [argument t], mutex := None,
                threads := a @ W_dequeue_lock # b,
                main_pc := M_process_node_unlock\<rparr>"
      using seed_wake(4) z(2) by simp
    then show ?thesis by (rule that(18) [OF Main_step seed_wake(1) z(1)])
  next
    case seed_unlock
    show ?thesis by (rule that(19) [OF Main_step seed_unlock])
  next
    case wait_lock
    show ?thesis by (rule that(20) [OF Main_step wait_lock])
  next
    case broadcast
    show ?thesis by (rule that(21) [OF Main_step broadcast])
  next
    case (join i)
    from zipper [OF join(2,3)] obtain a b where
      z: "threads s = a @ W_exited # b" "i = length a" by blast
    have j: "main_pc s = M_join (length a)" "s' = s\<lparr>main_pc := M_join (length a + 1)\<rparr>"
      using join(1,4) z(2) by simp_all
    show ?thesis by (rule that(22) [OF Main_step j(1) z(1) j(2)])
  next
    case (joined i)
    show ?thesis by (rule that(23) [OF Main_step joined])
  next
    case destroy
    show ?thesis by (rule that(24) [OF Main_step destroy])
  qed
next
  case (Worker_step w pick)
  with assms have "thread_loop_function g w pick s = Some s'" by simp
  then show ?thesis
  proof (cases rule: worker_step_cases)
    case dequeue_lock
    from zipper [OF dequeue_lock(1,2)] obtain a b where
      z: "threads s = a @ W_dequeue_lock # b" "w = length a" "\<forall>p. (threads s)[w := p] = a @ p # b" by blast
    have "s' = s\<lparr>mutex := Some (Worker_thread w), threads := a @ W_dequeue_test # b\<rparr>"
      using dequeue_lock(4) z(3) by simp
    then show ?thesis by (rule that(1) [OF Worker_step z(1,2) dequeue_lock(3)])
  next
    case dequeue_block
    from zipper [OF dequeue_block(1,2)] obtain a b where
      z: "threads s = a @ W_dequeue_test # b" "w = length a" "\<forall>p. (threads s)[w := p] = a @ p # b" by blast
    have "s' = s\<lparr>mutex := None, threads := a @ W_cond_wait # b\<rparr>"
      using dequeue_block(5) z(3) by simp
    then show ?thesis by (rule that(2) [OF Worker_step z(1,2) dequeue_block(3-4)])
  next
    case dequeue_none
    from zipper [OF dequeue_none(1,2)] obtain a b where
      z: "threads s = a @ W_dequeue_test # b" "w = length a" "\<forall>p. (threads s)[w := p] = a @ p # b" by blast
    have "s' = s\<lparr>mutex := None, threads := a @ W_exited # b\<rparr>"
      using dequeue_none(5) z(3) by simp
    then show ?thesis by (rule that(3) [OF Worker_step z(1,2) dequeue_none(3-4)])
  next
    case (dequeue_some t ts)
    from zipper [OF dequeue_some(1,2)] obtain a b where
      z: "threads s = a @ W_dequeue_test # b" "w = length a" "\<forall>p. (threads s)[w := p] = a @ p # b" by blast
    have "s' = s\<lparr>head := ts, mutex := None, threads := a @ W_execute_lock t # b\<rparr>"
      using dequeue_some(4) z(3) by simp
    then show ?thesis by (rule that(4) [OF Worker_step z(1,2) dequeue_some(3)])
  next
    case (execute_add t)
    from zipper [OF execute_add(1,2)] obtain a b where
      z: "threads s = a @ W_execute_lock t # b" "w = length a" "\<forall>p. (threads s)[w := p] = a @ p # b" by blast
    have "s' = s\<lparr>graph_mutex := Some (Worker_thread w),
                sum_v := sum_v s + info (g ! argument t),
                accumulated := accumulated s @ [argument t],
                visited := (visited s)[argument t := DONE],
                threads := a @ W_execute_for t 0 # b\<rparr>"
      using execute_add(7) z(3) by simp
    then show ?thesis by (rule that(5) [OF Worker_step z(1,2) execute_add(3-6)])
  next
    case (execute_skip t)
    from zipper [OF execute_skip(1,2)] obtain a b where
      z: "threads s = a @ W_execute_lock t # b" "w = length a" "\<forall>p. (threads s)[w := p] = a @ p # b" by blast
    have "s' = s\<lparr>graph_mutex := Some (Worker_thread w), threads := a @ W_execute_unlock t # b\<rparr>"
      using execute_skip(7) z(3) by simp
    then show ?thesis by (rule that(6) [OF Worker_step z(1,2) execute_skip(3-6)])
  next
    case (for_claim t i)
    from zipper [OF for_claim(1,2)] obtain a b where
      z: "threads s = a @ W_execute_for t i # b" "w = length a" "\<forall>p. (threads s)[w := p] = a @ p # b" by blast
    have "s' = s\<lparr>visited := (visited s)[neighbours (g ! argument t) ! i := PROCESSING],
                created := created s + 1,
                threads := a @ W_enqueue_lock t i
                  (create_task Execute (neighbours (g ! argument t) ! i) (Some Free)) # b\<rparr>"
      using for_claim(7) z(3) by simp
    then show ?thesis by (rule that(7) [OF Worker_step z(1,2) for_claim(3-6)])
  next
    case (for_next t i)
    from zipper [OF for_next(1,2)] obtain a b where
      z: "threads s = a @ W_execute_for t i # b" "w = length a" "\<forall>p. (threads s)[w := p] = a @ p # b" by blast
    have "s' = s\<lparr>threads := a @ W_execute_for t (i + 1) # b\<rparr>"
      using for_next(7) z(3) by simp
    then show ?thesis by (rule that(8) [OF Worker_step z(1,2) for_next(3-6)])
  next
    case (for_exit t i)
    from zipper [OF for_exit(1,2)] obtain a b where
      z: "threads s = a @ W_execute_for t i # b" "w = length a" "\<forall>p. (threads s)[w := p] = a @ p # b" by blast
    have "s' = s\<lparr>threads := a @ W_execute_unlock t # b\<rparr>"
      using for_exit(5) z(3) by simp
    then show ?thesis by (rule that(9) [OF Worker_step z(1,2) for_exit(3-4)])
  next
    case (enqueue_lock t i nt)
    from zipper [OF enqueue_lock(1,2)] obtain a b where
      z: "threads s = a @ W_enqueue_lock t i nt # b" "w = length a" "\<forall>p. (threads s)[w := p] = a @ p # b" by blast
    have "s' = s\<lparr>mutex := Some (Worker_thread w), threads := a @ W_enqueue_held t i nt # b\<rparr>"
      using enqueue_lock(4) z(3) by simp
    then show ?thesis by (rule that(10) [OF Worker_step z(1,2) enqueue_lock(3)])
  next
    case (enqueue_quiet t i nt)
    from zipper [OF enqueue_quiet(1,2)] obtain a b where
      z: "threads s = a @ W_enqueue_held t i nt # b" "w = length a" "\<forall>p. (threads s)[w := p] = a @ p # b" by blast
    have "s' = s\<lparr>head := head s @ [nt], tasks_added := tasks_added s + 1,
                enqueued := enqueued s @ [argument nt], mutex := None,
                threads := a @ W_execute_for t (i + 1) # b\<rparr>"
      using enqueue_quiet(3) z(3) by simp
    then show ?thesis by (rule that(11) [OF Worker_step z(1,2)])
  next
    case (enqueue_wake t i nt v)
    from enqueue_wake(2,4) have "v \<noteq> w" by auto
    from zipper2 [OF enqueue_wake(3) enqueue_wake(1) this enqueue_wake(4) enqueue_wake(2)]
    show ?thesis
    proof (elim disjE exE conjE)
      fix a b c
      assume z: "threads s = a @ W_cond_wait # b @ W_enqueue_held t i nt # c"
        "w = length a + 1 + length b"
        "\<forall>x y. (threads s)[v := x, w := y] = a @ x # b @ y # c"
      have "s' = s\<lparr>head := head s @ [nt], tasks_added := tasks_added s + 1,
                enqueued := enqueued s @ [argument nt], mutex := None,
                threads := a @ W_dequeue_lock # b @ W_execute_for t (i + 1) # c\<rparr>"
        using enqueue_wake(5) z(3) by simp
      then show ?thesis by (rule that(12) [OF Worker_step z(1,2)])
    next
      fix a b c
      assume z: "threads s = a @ W_enqueue_held t i nt # b @ W_cond_wait # c"
        "w = length a"
        "\<forall>x y. (threads s)[v := x, w := y] = a @ y # b @ x # c"
      have "s' = s\<lparr>head := head s @ [nt], tasks_added := tasks_added s + 1,
                enqueued := enqueued s @ [argument nt], mutex := None,
                threads := a @ W_execute_for t (i + 1) # b @ W_dequeue_lock # c\<rparr>"
        using enqueue_wake(5) z(3) by simp
      then show ?thesis by (rule that(13) [OF Worker_step z(1,2)])
    qed
  next
    case (execute_unlock t)
    from zipper [OF execute_unlock(1,2)] obtain a b where
      z: "threads s = a @ W_execute_unlock t # b" "w = length a" "\<forall>p. (threads s)[w := p] = a @ p # b" by blast
    have "s' = (destroy_task t (s\<lparr>graph_mutex := None\<rparr>))\<lparr>threads := a @ W_dequeue_lock # b\<rparr>"
      using execute_unlock(3) z(3) by simp
    then show ?thesis by (rule that(14) [OF Worker_step z(1,2)])
  qed
next
  case (Spurious_wakeup w)
  with assms have w: "w < length (threads s)" "threads s ! w = W_cond_wait" "0 < spurious s"
    "s' = s\<lparr>spurious := spurious s - 1, threads := (threads s)[w := W_dequeue_lock]\<rparr>"
    by (simp_all add: spurious_wakeup_def split: if_splits)
  from zipper [OF w(1,2)] obtain a b where
    z: "threads s = a @ W_cond_wait # b" "w = length a" "\<forall>p. (threads s)[w := p] = a @ p # b" by blast
  have "s' = s\<lparr>spurious := spurious s - 1, threads := a @ W_dequeue_lock # b\<rparr>"
    using w(4) z(3) by simp
  then show ?thesis by (rule that(25) [OF Spurious_wakeup z(1,2) w(3)])
qed

lemma step_cases_idx [consumes 1, case_names dequeue_lock dequeue_block dequeue_none dequeue_some execute_add execute_skip for_claim for_next for_exit enqueue_lock enqueue_quiet enqueue_wake execute_unlock seed seed_lock seed_quiet seed_wake seed_unlock wait_lock broadcast join joined destroy spurious]:
  assumes "step g e s = Some s'"
  obtains
    (dequeue_lock) w pick where "e = Worker_step w pick" "w < length (threads s)" "threads s ! w = W_dequeue_lock" "mutex s = None"
      "s' = s\<lparr>mutex := Some (Worker_thread w), threads := (threads s)[w := W_dequeue_test]\<rparr>"
  | (dequeue_block) w pick where "e = Worker_step w pick" "w < length (threads s)" "threads s ! w = W_dequeue_test"
      "head s = []" "tasks_added s = 0"
      "s' = s\<lparr>mutex := None, threads := (threads s)[w := W_cond_wait]\<rparr>"
  | (dequeue_none) w pick where "e = Worker_step w pick" "w < length (threads s)" "threads s ! w = W_dequeue_test"
      "head s = []" "tasks_added s \<noteq> 0"
      "s' = s\<lparr>mutex := None, threads := (threads s)[w := W_exited]\<rparr>"
  | (dequeue_some) w pick t ts where "e = Worker_step w pick" "w < length (threads s)" "threads s ! w = W_dequeue_test"
      "head s = t # ts"
      "s' = s\<lparr>head := ts, mutex := None, threads := (threads s)[w := W_execute_lock t]\<rparr>"
  | (execute_add) w pick t where "e = Worker_step w pick" "w < length (threads s)" "threads s ! w = W_execute_lock t"
      "graph_mutex s = None" "argument t < length (visited s)" "argument t < length g"
      "visited s ! argument t = PROCESSING"
      "s' = s\<lparr>graph_mutex := Some (Worker_thread w),
                sum_v := sum_v s + info (g ! argument t),
                accumulated := accumulated s @ [argument t],
                visited := (visited s)[argument t := DONE],
                threads := (threads s)[w := W_execute_for t 0]\<rparr>"
  | (execute_skip) w pick t where "e = Worker_step w pick" "w < length (threads s)" "threads s ! w = W_execute_lock t"
      "graph_mutex s = None" "argument t < length (visited s)" "argument t < length g"
      "visited s ! argument t \<noteq> PROCESSING"
      "s' = s\<lparr>graph_mutex := Some (Worker_thread w),
                threads := (threads s)[w := W_execute_unlock t]\<rparr>"
  | (for_claim) w pick t i where "e = Worker_step w pick" "w < length (threads s)" "threads s ! w = W_execute_for t i"
      "argument t < length g" "i < length (neighbours (g ! argument t))"
      "neighbours (g ! argument t) ! i < length (visited s)"
      "visited s ! (neighbours (g ! argument t) ! i) = NOT_VISITED"
      "s' = s\<lparr>visited := (visited s)[neighbours (g ! argument t) ! i := PROCESSING],
                created := created s + 1,
                threads := (threads s)[w := W_enqueue_lock t i
                  (create_task Execute (neighbours (g ! argument t) ! i) (Some Free))]\<rparr>"
  | (for_next) w pick t i where "e = Worker_step w pick" "w < length (threads s)" "threads s ! w = W_execute_for t i"
      "argument t < length g" "i < length (neighbours (g ! argument t))"
      "neighbours (g ! argument t) ! i < length (visited s)"
      "visited s ! (neighbours (g ! argument t) ! i) \<noteq> NOT_VISITED"
      "s' = s\<lparr>threads := (threads s)[w := W_execute_for t (i + 1)]\<rparr>"
  | (for_exit) w pick t i where "e = Worker_step w pick" "w < length (threads s)" "threads s ! w = W_execute_for t i"
      "argument t < length g" "\<not> i < length (neighbours (g ! argument t))"
      "s' = s\<lparr>threads := (threads s)[w := W_execute_unlock t]\<rparr>"
  | (enqueue_lock) w pick t i nt where "e = Worker_step w pick" "w < length (threads s)" "threads s ! w = W_enqueue_lock t i nt"
      "mutex s = None"
      "s' = s\<lparr>mutex := Some (Worker_thread w),
                threads := (threads s)[w := W_enqueue_held t i nt]\<rparr>"
  | (enqueue_quiet) w pick t i nt where "e = Worker_step w pick" "w < length (threads s)" "threads s ! w = W_enqueue_held t i nt"
      "s' = s\<lparr>head := head s @ [nt], tasks_added := tasks_added s + 1,
                enqueued := enqueued s @ [argument nt], mutex := None,
                threads := (threads s)[w := W_execute_for t (i + 1)]\<rparr>"
  | (enqueue_wake) w pick t i nt v where "e = Worker_step w pick" "w < length (threads s)" "threads s ! w = W_enqueue_held t i nt"
      "v < length (threads s)" "threads s ! v = W_cond_wait"
      "s' = s\<lparr>head := head s @ [nt], tasks_added := tasks_added s + 1,
                enqueued := enqueued s @ [argument nt], mutex := None,
                threads := (threads s)[v := W_dequeue_lock, w := W_execute_for t (i + 1)]\<rparr>"
  | (execute_unlock) w pick t where "e = Worker_step w pick" "w < length (threads s)" "threads s ! w = W_execute_unlock t"
      "s' = (destroy_task t (s\<lparr>graph_mutex := None\<rparr>))
               \<lparr>threads := (threads s)[w := W_dequeue_lock]\<rparr>"
  | (seed) pick idx where "e = Main_step pick" "main_pc s = M_process_node_lock idx" "graph_mutex s = None"
      "idx < length (visited s)"
      "s' = s\<lparr>graph_mutex := Some Main_thread, visited := (visited s)[idx := PROCESSING],
                created := created s + 1,
                main_pc := M_enqueue_lock (create_task Execute idx (Some Free))\<rparr>"
  | (seed_lock) pick t where "e = Main_step pick" "main_pc s = M_enqueue_lock t" "mutex s = None"
      "s' = s\<lparr>mutex := Some Main_thread, main_pc := M_enqueue_held t\<rparr>"
  | (seed_quiet) pick t where "e = Main_step pick" "main_pc s = M_enqueue_held t"
      "s' = s\<lparr>head := head s @ [t], tasks_added := tasks_added s + 1,
                enqueued := enqueued s @ [argument t], mutex := None,
                main_pc := M_process_node_unlock\<rparr>"
  | (seed_wake) pick t v where "e = Main_step pick" "main_pc s = M_enqueue_held t"
      "v < length (threads s)" "threads s ! v = W_cond_wait"
      "s' = s\<lparr>head := head s @ [t], tasks_added := tasks_added s + 1,
                enqueued := enqueued s @ [argument t], mutex := None,
                threads := (threads s)[v := W_dequeue_lock],
                main_pc := M_process_node_unlock\<rparr>"
  | (seed_unlock) pick where "e = Main_step pick" "main_pc s = M_process_node_unlock"
      "s' = s\<lparr>graph_mutex := None, main_pc := M_wait_lock\<rparr>"
  | (wait_lock) pick where "e = Main_step pick" "main_pc s = M_wait_lock" "mutex s = None"
      "s' = s\<lparr>mutex := Some Main_thread, main_pc := M_wait_held\<rparr>"
  | (broadcast) pick where "e = Main_step pick" "main_pc s = M_wait_held"
      "s' = s\<lparr>threads := cond_broadcast (threads s), mutex := None, main_pc := M_join 0\<rparr>"
  | (join) pick i where "e = Main_step pick" "main_pc s = M_join i" "i < length (threads s)" "threads s ! i = W_exited"
      "s' = s\<lparr>main_pc := M_join (i + 1)\<rparr>"
  | (joined) pick i where "e = Main_step pick" "main_pc s = M_join i" "\<not> i < length (threads s)"
      "s' = s\<lparr>main_pc := M_destroy\<rparr>"
  | (destroy) pick where "e = Main_step pick" "main_pc s = M_destroy"
      "s' = (destroy_threadpool s)\<lparr>main_pc := M_done\<rparr>"
  | (spurious) w where "e = Spurious_wakeup w" "w < length (threads s)" "threads s ! w = W_cond_wait"
      "0 < spurious s"
      "s' = s\<lparr>spurious := spurious s - 1, threads := (threads s)[w := W_dequeue_lock]\<rparr>"
proof (cases e)
  case (Main_step pick)
  with assms have "main_step pick s = Some s'" by simp
  then show ?thesis
  proof (cases rule: main_step_cases)
    case (seed idx)
    show ?thesis by (rule that(14) [OF Main_step seed])
  next
    case (seed_lock t)
    show ?thesis by (rule that(15) [OF Main_step seed_lock])
  next
    case (seed_quiet t)
    show ?thesis by (rule that(16) [OF Main_step seed_quiet])
  next
    case (seed_wake t v)
    show ?thesis by (rule that(17) [OF Main_step seed_wake])
  next
    case seed_unlock
    show ?thesis by (rule that(18) [OF Main_step seed_unlock])
  next
    case wait_lock
    show ?thesis by (rule that(19) [OF Main_step wait_lock])
  next
    case broadcast
    show ?thesis by (rule that(20) [OF Main_step broadcast])
  next
    case (join i)
    show ?thesis by (rule that(21) [OF Main_step join])
  next
    case (joined i)
    show ?thesis by (rule that(22) [OF Main_step joined])
  next
    case destroy
    show ?thesis by (rule that(23) [OF Main_step destroy])
  qed
next
  case (Worker_step w pick)
  with assms have "thread_loop_function g w pick s = Some s'" by simp
  then show ?thesis
  proof (cases rule: worker_step_cases)
    case dequeue_lock
    show ?thesis by (rule that(1) [OF Worker_step dequeue_lock])
  next
    case dequeue_block
    show ?thesis by (rule that(2) [OF Worker_step dequeue_block])
  next
    case dequeue_none
    show ?thesis by (rule that(3) [OF Worker_step dequeue_none])
  next
    case (dequeue_some t ts)
    show ?thesis by (rule that(4) [OF Worker_step dequeue_some])
  next
    case (execute_add t)
    show ?thesis by (rule that(5) [OF Worker_step execute_add])
  next
    case (execute_skip t)
    show ?thesis by (rule that(6) [OF Worker_step execute_skip])
  next
    case (for_claim t i)
    show ?thesis by (rule that(7) [OF Worker_step for_claim])
  next
    case (for_next t i)
    show ?thesis by (rule that(8) [OF Worker_step for_next])
  next
    case (for_exit t i)
    show ?thesis by (rule that(9) [OF Worker_step for_exit])
  next
    case (enqueue_lock t i nt)
    show ?thesis by (rule that(10) [OF Worker_step enqueue_lock])
  next
    case (enqueue_quiet t i nt)
    show ?thesis by (rule that(11) [OF Worker_step enqueue_quiet])
  next
    case (enqueue_wake t i nt v)
    show ?thesis by (rule that(12) [OF Worker_step enqueue_wake])
  next
    case (execute_unlock t)
    show ?thesis by (rule that(13) [OF Worker_step execute_unlock])
  qed
next
  case (Spurious_wakeup w)
  with assms show ?thesis using that(24) [of w]
    by (simp add: spurious_wakeup_def split: if_splits)
qed

lemma cond_broadcast_filter:
  "\<not> P W_cond_wait \<Longrightarrow> \<not> P W_dequeue_lock \<Longrightarrow> filter P (cond_broadcast ws) = filter P ws"
  by (induction ws) (auto simp add: cond_broadcast_def)

lemma cond_broadcast_nth:
  "w < length ws \<Longrightarrow> cond_broadcast ws ! w = (if ws ! w = W_cond_wait then W_dequeue_lock else ws ! w)"
  by (simp add: cond_broadcast_def)

lemma length_cond_broadcast [simp]: "length (cond_broadcast ws) = length ws"
  by (simp add: cond_broadcast_def)

lemma count_inv_step:
  assumes "step g e s = Some s'" "count_inv s"
  shows "count_inv s'"
  using assms(1)
proof (cases rule: step_cases)
qed (use assms(2) in \<open>auto simp add: count_inv_def holders_def cond_broadcast_filter
    split: option.splits if_splits\<close>)

lemma holder_inv_step:
  assumes "step g e s = Some s'" "holder_inv s"
  shows "holder_inv s'"
  using assms(1)
proof (cases rule: step_cases_idx)
qed (use assms(2) in \<open>auto simp add: holder_inv_def holder_ok_def nth_list_update cond_broadcast_nth
    split: option.splits thread_id.splits if_splits\<close>)

lemma task_ok_update:
  "task_ok g vis t \<Longrightarrow> v \<noteq> NOT_VISITED \<Longrightarrow> task_ok g (vis[j := v]) t"
  by (cases "j < length vis") (auto simp add: task_ok_def nth_list_update list_update_beyond)

lemma tasks_ok_update:
  "list_all (task_ok g vis) ts \<Longrightarrow> v \<noteq> NOT_VISITED \<Longrightarrow> list_all (task_ok g (vis[j := v])) ts"
  by (induction ts) (auto intro: task_ok_update)

lemma pcs_ok_update:
  "list_all (pc_ok g vis) ws \<Longrightarrow> v \<noteq> NOT_VISITED \<Longrightarrow> list_all (pc_ok g (vis[j := v])) ws"
  by (induction ws) (auto simp add: pc_ok_def intro: tasks_ok_update)

lemma pcs_ok_broadcast:
  "list_all (pc_ok g vis) ws \<Longrightarrow> list_all (pc_ok g vis) (cond_broadcast ws)"
  by (induction ws) (auto simp add: pc_ok_def cond_broadcast_def)

lemma tasks_inv_step:
  assumes "step g e s = Some s'" "tasks_inv g s"
  shows "tasks_inv g s'"
  using assms(1)
proof (cases rule: step_cases)
qed (use assms(2) in \<open>auto simp add: tasks_inv_def pc_ok_def task_ok_def create_task_def nth_list_update
    intro: tasks_ok_update pcs_ok_update pcs_ok_broadcast\<close>)

lemma cond_broadcast_awake: "list_all (\<lambda>p. p \<noteq> W_cond_wait) (cond_broadcast ws)"
  by (induction ws) (auto simp add: cond_broadcast_def)

lemma cond_broadcast_exited:
  "list_all (\<lambda>p. p = W_exited) (cond_broadcast ws) = list_all (\<lambda>p. p = W_exited) ws"
  by (induction ws) (auto simp add: cond_broadcast_def)

lemma cond_broadcast_Nil [simp]: "cond_broadcast ws = [] \<longleftrightarrow> ws = []"
  by (simp add: cond_broadcast_def)

lemma idle_not_exited:
  "list_all idle ws \<Longrightarrow> list_all (\<lambda>p. p = W_exited) ws \<Longrightarrow> ws = []"
  by (cases ws) auto

lemma phase_inv_step:
  assumes "step g e s = Some s'" "phase_inv s"
  shows "phase_inv s'"
  using assms(1)
proof (cases rule: step_cases)
qed (use assms(2) in \<open>auto simp add: phase_inv_def cond_broadcast_awake cond_broadcast_exited
    split: main_pc.splits dest: idle_not_exited\<close>)

lemma join_inv_step:
  assumes "step g e s = Some s'" "join_inv s"
  shows "join_inv s'"
  using assms(1)
proof (cases rule: step_cases_idx)
qed (use assms(2) in \<open>auto simp add: join_inv_def nth_list_update list_all_length cond_broadcast_nth
    less_Suc_eq split: main_pc.splits\<close>)

lemma with_status_update:
  "j < length vis \<Longrightarrow>
   with_status v (vis[j := u]) = (if u = v then insert j (with_status v vis) else with_status v vis - {j})"
  by (auto simp add: with_status_def nth_list_update)

lemma with_status_all:
  "list_all (\<lambda>u. u = NOT_VISITED) vis \<Longrightarrow> v \<noteq> NOT_VISITED \<Longrightarrow> with_status v vis = {}"
  by (auto simp add: with_status_def list_all_length)

lemma with_status_mem: "j \<in> with_status v vis \<longleftrightarrow> j < length vis \<and> vis ! j = v"
  by (simp add: with_status_def)

lemma acc_inv_step:
  assumes "step g e s = Some s'" "acc_inv g s" "phase_inv s"
  shows "acc_inv g s'"
  using assms(1)
proof (cases rule: step_cases)
qed (use assms(2,3) in \<open>auto simp add: acc_inv_def phase_inv_def with_status_update with_status_all
    with_status_mem\<close>)

lemma pend_w_broadcast: "\<Union> (pend_w ` set (cond_broadcast ws)) = \<Union> (pend_w ` set ws)"
  by (induction ws) (auto simp add: cond_broadcast_def)

lemma pend_inv_step:
  assumes "step g e s = Some s'" "pend_inv s" "phase_inv s" "join_inv s"
  shows "pend_inv s'"
  using assms(1)
proof (cases rule: step_cases)
qed (use assms(2-4) in \<open>auto simp add: pend_inv_def pending_def with_status_update create_task_def
    pend_w_broadcast phase_inv_def join_inv_def with_status_mem\<close>)

lemma reach_inv_step:
  assumes "step g e s = Some s'" "reach_inv g s" "phase_inv s" "tasks_inv g s"
  shows "reach_inv g s'"
  using assms(1)
proof (cases rule: step_cases)
qed (use assms(2-4) in \<open>auto simp add: reach_inv_def phase_inv_def tasks_inv_def pc_ok_def task_ok_def
    nth_list_update intro: reach.start reach.edge\<close>)

lemma seed_inv_step:
  assumes "step g e s = Some s'" "seed_inv s" "phase_inv s"
  shows "seed_inv s'"
  using assms(1)
proof (cases rule: step_cases)
qed (use assms(2,3) in \<open>auto simp add: seed_inv_def phase_inv_def nth_list_update
    split: main_pc.splits\<close>)

lemma scanning_broadcast: "list_ex (scanning j k) (cond_broadcast ws) = list_ex (scanning j k) ws"
  by (induction ws) (auto simp add: cond_broadcast_def)

lemma edge_ok_step:
  assumes "step g e s = Some s'" "edge_ok g s j k"
  shows "edge_ok g s' j k"
  using assms(1)
proof (cases rule: step_cases)
qed (use assms(2) in \<open>auto simp add: edge_ok_def nth_list_update scanning_broadcast Suc_le_eq
    intro: le_neq_implies_less\<close>)

lemma closed_inv_step:
  assumes "step g e s = Some s'" "closed_inv g s"
  shows "closed_inv g s'"
  using assms edge_ok_step unfolding closed_inv_def by blast

lemma new_w_broadcast: "concat (map new_w (cond_broadcast ws)) = concat (map new_w ws)"
  by (induction ws) (auto simp add: cond_broadcast_def)

lemma enq_inv_step:
  assumes "step g e s = Some s'" "enq_inv s" "phase_inv s"
  shows "enq_inv s'"
  using assms(1)
proof (cases rule: step_cases)
qed (use assms(2,3) in \<open>auto simp add: enq_inv_def inflight_def with_status_update with_status_mem
    new_w_broadcast create_task_def phase_inv_def\<close>)

lemma owned_broadcast:
  "sum_list (map (\<lambda>p. length (pc_tasks p)) (cond_broadcast ws)) =
   sum_list (map (\<lambda>p. length (pc_tasks p)) ws)"
  by (induction ws) (auto simp add: cond_broadcast_def)

lemma all_destructors:
  "list_all (task_ok g vis) ts \<Longrightarrow>
   length (filter (\<lambda>t. \<exists>y. destroy_arg t = Some y) ts) = length ts"
  by (induction ts) (auto simp add: task_ok_def)

lemma free_inv_step:
  assumes "step g e s = Some s'" "free_inv s" "tasks_inv g s"
  shows "free_inv s'"
  using assms(1)
proof (cases rule: step_cases)
qed (use assms(2,3) in \<open>auto simp add: free_inv_def owned_def owned_broadcast tasks_inv_def pc_ok_def
    task_ok_def all_destructors\<close>)

lemma invariantD:
  assumes "invariant g s"
  shows "count_inv s" "holder_inv s" "tasks_inv g s" "phase_inv s" "join_inv s" "acc_inv g s"
    "pend_inv s" "reach_inv g s" "seed_inv s" "closed_inv g s" "enq_inv s" "free_inv s"
  using assms by (simp_all add: invariant_def)

lemma invariant_step:
  assumes "step g e s = Some s'" "invariant g s"
  shows "invariant g s'"
proof -
  note i = invariantD [OF assms(2)] and st = assms(1)
  show ?thesis
    unfolding invariant_def
    using count_inv_step [OF st i(1)] holder_inv_step [OF st i(2)] tasks_inv_step [OF st i(3)]
      phase_inv_step [OF st i(4)] join_inv_step [OF st i(5)] acc_inv_step [OF st i(6) i(4)]
      pend_inv_step [OF st i(7) i(4) i(5)] reach_inv_step [OF st i(8) i(4) i(3)]
      seed_inv_step [OF st i(9) i(4)] closed_inv_step [OF st i(10)]
      enq_inv_step [OF st i(11) i(4)] free_inv_step [OF st i(12) i(3)]
    by blast
qed

lemma invariant_run:
  "run g es s = Some s' \<Longrightarrow> invariant g s \<Longrightarrow> invariant g s'"
proof (induction es arbitrary: s)
  case Nil
  then show ?case by simp
next
  case (Cons e es)
  from Cons.prems(1) obtain s1 where s1: "step g e s = Some s1" "run g es s1 = Some s'"
    by (auto split: option.splits)
  from invariant_step [OF s1(1) Cons.prems(2)] have "invariant g s1" .
  with Cons.IH s1(2) show ?case by blast
qed

lemma filter_replicate_False: "\<not> P x \<Longrightarrow> filter P (replicate n x) = []"
  by (induction n) auto

lemma invariant_init:
  assumes "0 < n"
  shows "invariant g (create_threadpool g n k)"
proof -
  have "replicate n W_dequeue_lock \<noteq> []" using assms by simp
  then show ?thesis
    unfolding invariant_def
    by (auto simp add: create_threadpool_def count_inv_def holders_def holder_inv_def holder_ok_def
        tasks_inv_def pc_ok_def phase_inv_def join_inv_def acc_inv_def pend_inv_def pending_def
        reach_inv_def seed_inv_def closed_inv_def edge_ok_def enq_inv_def inflight_def
        free_inv_def owned_def with_status_def filter_replicate_False list_all_length)
qed

lemma exited_pending: "list_all (\<lambda>p. p = W_exited) ws \<Longrightarrow> \<Union> (pend_w ` set ws) = {}"
  by (induction ws) auto

lemma exited_scanning: "list_all (\<lambda>p. p = W_exited) ws \<Longrightarrow> \<not> list_ex (scanning j k) ws"
  by (induction ws) auto

lemma final_done:
  assumes inv: "invariant g s" and fin: "main_pc s = M_destroy \<or> main_pc s = M_done"
  shows "with_status DONE (visited s) = reach g"
proof -
  note i = invariantD [OF inv]
  have ex: "list_all (\<lambda>p. p = W_exited) (threads s)"
    using i(5) fin by (auto simp add: join_inv_def)
  have hd: "head s = []"
    using i(4) ex by (auto simp add: phase_inv_def)
  have "pending s = {}"
    using fin hd exited_pending [OF ex] by (auto simp add: pending_def)
  with i(7) have np: "with_status PROCESSING (visited s) = {}"
    by (simp add: pend_inv_def)
  have status: "visited s ! j = DONE" if "j < length (visited s)" "visited s ! j \<noteq> NOT_VISITED" for j
  proof (cases "visited s ! j")
    case NOT_VISITED
    with that show ?thesis by simp
  next
    case PROCESSING
    with that(1) have "j \<in> with_status PROCESSING (visited s)" by (simp add: with_status_mem)
    with np show ?thesis by simp
  next
    case DONE
    then show ?thesis .
  qed
  have seed: "0 < length (visited s)" "visited s ! 0 = DONE"
  proof -
    from i(9) fin show "0 < length (visited s)" by (auto simp add: seed_inv_def)
    moreover from i(9) fin have "visited s ! 0 \<noteq> NOT_VISITED" by (auto simp add: seed_inv_def)
    ultimately show "visited s ! 0 = DONE" by (rule status)
  qed
  have len: "length (visited s) = length g"
    using i(3) by (simp add: tasks_inv_def)
  have closed: "j < length (visited s) \<and> visited s ! j = DONE" if "j \<in> reach g" for j
    using that
  proof (induction rule: reach.induct)
    case start
    from seed show ?case by simp
  next
    case (edge i j)
    from edge.hyps(3) obtain k where k: "k < length (neighbours (g ! i))" "neighbours (g ! i) ! k = j"
      by (auto simp add: in_set_conv_nth)
    from i(10) have "edge_ok g s i k" by (simp add: closed_inv_def)
    with edge.IH k exited_scanning [OF ex, of i k]
    have "j < length (visited s) \<and> visited s ! j \<noteq> NOT_VISITED"
      by (simp add: edge_ok_def)
    with status show ?case by blast
  qed
  show ?thesis
  proof (intro set_eqI iffI)
    fix j assume "j \<in> with_status DONE (visited s)"
    then have "j < length (visited s)" "visited s ! j \<noteq> NOT_VISITED"
      by (simp_all add: with_status_mem)
    with i(8) show "j \<in> reach g" by (simp add: reach_inv_def)
  next
    fix j assume "j \<in> reach g"
    from closed [OF this] show "j \<in> with_status DONE (visited s)" by (simp add: with_status_mem)
  qed
qed

lemma final_sum:
  assumes inv: "invariant g s" and fin: "main_pc s = M_destroy \<or> main_pc s = M_done"
  shows "distinct (accumulated s)" "set (accumulated s) = reach g"
    "sum_v s = (\<Sum>j\<in>reach g. info (g ! j))"
proof -
  from invariantD(6) [OF inv] have a: "distinct (accumulated s)"
    "set (accumulated s) = with_status DONE (visited s)"
    "sum_v s = sum_list (map (\<lambda>j. info (g ! j)) (accumulated s))"
    by (simp_all add: acc_inv_def)
  show "distinct (accumulated s)" by (rule a(1))
  show r: "set (accumulated s) = reach g" using a(2) final_done [OF inv fin] by simp
  show "sum_v s = (\<Sum>j\<in>reach g. info (g ! j))"
    using a(3) sum_list_distinct_conv_sum_set [OF a(1), of "\<lambda>j. info (g ! j)"] r by simp
qed

lemma claim_cost_sum:
  "claim_cost g vis = (\<Sum>j\<in>with_status NOT_VISITED vis. 9 + degree g j)"
proof -
  have "claim_cost g vis =
      (\<Sum>j\<in>{0..<length vis}. if vis ! j = NOT_VISITED then 9 + degree g j else 0)"
    by (simp add: claim_cost_def interv_sum_list_conv_sum_set_nat)
  also have "\<dots> = (\<Sum>j\<in>{j \<in> {0..<length vis}. vis ! j = NOT_VISITED}. 9 + degree g j)"
    by (rule sum.inter_filter [symmetric]) simp
  also have "{j \<in> {0..<length vis}. vis ! j = NOT_VISITED} = with_status NOT_VISITED vis"
    by (auto simp add: with_status_def)
  finally show ?thesis .
qed

lemma finite_with_status [simp]: "finite (with_status v vis)"
  by (simp add: with_status_def)

lemma claim_cost_claim:
  assumes "j < length vis" "vis ! j = NOT_VISITED" "v \<noteq> NOT_VISITED"
  shows "claim_cost g (vis[j := v]) + (9 + degree g j) = claim_cost g vis"
proof -
  from assms have "j \<in> with_status NOT_VISITED vis" by (simp add: with_status_mem)
  then show ?thesis
    using assms by (simp add: claim_cost_sum with_status_update sum.remove [of _ j] add.commute)
qed

lemma claim_cost_mono:
  assumes "v \<noteq> NOT_VISITED"
  shows "claim_cost g (vis[j := v]) \<le> claim_cost g vis"
proof (cases "j < length vis")
  case True
  then have "with_status NOT_VISITED (vis[j := v]) \<subseteq> with_status NOT_VISITED vis"
    using assms by (auto simp add: with_status_update)
  then show ?thesis
    by (simp add: claim_cost_sum sum_mono2)
next
  case False
  then show ?thesis by (simp add: list_update_beyond)
qed

lemma worker_cost_broadcast:
  "sum_list (map (worker_cost g) (cond_broadcast ws)) \<le>
   sum_list (map (worker_cost g) ws) + 2 * length ws"
  by (induction ws) (auto simp add: cond_broadcast_def)

lemma potential_step:
  assumes "step g e s = Some s'"
  shows "potential g s' < potential g s"
  using assms
proof (cases rule: step_cases)
  case (execute_add w pick t a b)
  then show ?thesis
    using claim_cost_mono [of DONE g "visited s" "argument t"]
    by (simp add: potential_def task_cost_def)
next
  case (for_claim w pick t i a b)
  then show ?thesis
    using claim_cost_claim [of "neighbours (g ! argument t) ! i" "visited s" PROCESSING g]
    by (simp add: potential_def task_cost_def create_task_def degree_def)
next
  case (seed pick idx)
  then show ?thesis
    using claim_cost_mono [of PROCESSING g "visited s" idx]
    by (simp add: potential_def task_cost_def create_task_def)
next
  case (broadcast pick)
  then show ?thesis
    using worker_cost_broadcast [of g "threads s"]
    by (simp add: potential_def)
qed (auto simp add: potential_def task_cost_def degree_def)

lemma potential_run:
  "run g es s = Some s' \<Longrightarrow> length es + potential g s' \<le> potential g s"
proof (induction es arbitrary: s)
  case Nil
  then show ?case by simp
next
  case (Cons e es)
  from Cons.prems obtain s1 where s1: "step g e s = Some s1" "run g es s1 = Some s'"
    by (auto split: option.splits)
  from potential_step [OF s1(1)] Cons.IH [OF s1(2)] show ?case by simp
qed

lemma runnable_step:
  "w < length (threads s) \<Longrightarrow>
   runnable g s (threads s ! w) \<longleftrightarrow> thread_loop_function g w pick s \<noteq> None"
  by (cases "threads s ! w")
    (auto simp add: thread_loop_function_def dequeue_task_cases execute_enter_def execute_for_def)

lemma main_runnable_step: "main_runnable s (main_pc s) \<longleftrightarrow> main_step pick s \<noteq> None"
  by (cases "main_pc s") (auto simp add: main_step_def)

lemma progress:
  assumes inv: "invariant g s" and wf: "wf_graph g" and run: "main_pc s \<noteq> M_done"
  shows "\<exists>e. step g e s \<noteq> None"
proof (rule ccontr)
  assume "\<not> ?thesis"
  then have stuck: "\<And>e. step g e s = None" by simp
  note i = invariantD [OF inv]
  have nw: "\<not> runnable g s p" if "p \<in> set (threads s)" for p
  proof -
    from that obtain w where w: "w < length (threads s)" "threads s ! w = p"
      by (auto simp add: in_set_conv_nth)
    from stuck [of "Worker_step w 0"] have "thread_loop_function g w 0 s = None" by simp
    with runnable_step [OF w(1), of g 0] w(2) show ?thesis by simp
  qed
  have nm: "\<not> main_runnable s (main_pc s)"
    using stuck [of "Main_step 0"] main_runnable_step [of s 0] by simp
  have len: "length (visited s) = length g"
    using i(3) by (simp add: tasks_inv_def)
  have ok: "pc_ok g (visited s) p" if "p \<in> set (threads s)" for p
    using i(3) that by (simp add: tasks_inv_def list_all_iff)
  have "\<not> holds_mutex p" if "p \<in> set (threads s)" for p
    using nw [OF that] by (cases p) auto
  then have "filter holds_mutex (threads s) = []"
    by (simp add: filter_empty_conv)
  moreover have "\<not> main_holds_mutex (main_pc s)"
    using nm by (cases "main_pc s") auto
  ultimately have q: "mutex s = None"
    using i(1) by (auto simp add: count_inv_def holders_def split: option.splits)
  have range: "neighbours (g ! j) ! k < length (visited s)"
    if "j < length g" "k < length (neighbours (g ! j))" for j k
  proof -
    from wf that(1) have "list_all (\<lambda>j. j < length g) (neighbours (g ! j))"
      by (simp add: wf_graph_def list_all_length)
    with that(2) len show ?thesis by (simp add: list_all_length)
  qed
  have ng: "\<not> holds_graph_mutex p" if "p \<in> set (threads s)" for p
    using nw [OF that] ok [OF that] q range
    by (cases p) (auto simp add: pc_ok_def task_ok_def)
  then have "filter holds_graph_mutex (threads s) = []"
    by (simp add: filter_empty_conv)
  moreover have "\<not> main_holds_graph_mutex (main_pc s)"
    using nm q by (cases "main_pc s") auto
  ultimately have gm: "graph_mutex s = None"
    using i(1) by (auto simp add: count_inv_def holders_def split: option.splits)
  have rest: "p = W_cond_wait \<or> p = W_exited" if "p \<in> set (threads s)" for p
    using nw [OF that] ok [OF that] ng [OF that] q gm len
    by (cases p) (auto simp add: pc_ok_def task_ok_def)
  show False
  proof (cases "main_pc s")
    case (M_process_node_lock idx)
    with i(4) have "idx = 0" by (simp add: phase_inv_def)
    with nm M_process_node_lock gm len wf show ?thesis by (simp add: wf_graph_def)
  next
    case (M_join j)
    with nm have j: "j < length (threads s)" "threads s ! j \<noteq> W_exited" by simp_all
    then have "threads s ! j \<in> set (threads s)" by simp
    from rest [OF this] j(2) have "threads s ! j = W_cond_wait" by simp
    moreover from i(4) M_join have "list_all (\<lambda>p. p \<noteq> W_cond_wait) (threads s)"
      by (simp add: phase_inv_def)
    ultimately show ?thesis using j(1) by (simp add: list_all_length)
  qed (use nm q run in auto)
qed

lemma two_holders:
  assumes "x < length ws" "w < length ws" "x \<noteq> w" "P (ws ! x)" "P (ws ! w)"
  shows "2 \<le> length (filter P ws)"
proof -
  have "{x, w} \<subseteq> {i. i < length ws \<and> P (ws ! i)}" using assms by auto
  then have "card {x, w} \<le> card {i. i < length ws \<and> P (ws ! i)}"
    by (intro card_mono) auto
  with assms(3) show ?thesis by (simp add: length_filter_conv_card)
qed

lemma one_holder:
  assumes "w < length ws" "P (ws ! w)"
  shows "1 \<le> length (filter P ws)"
proof -
  from assms have "\<exists>p\<in>set ws. P p" using nth_mem by blast
  then have "filter P ws \<noteq> []" by (simp add: filter_empty_conv)
  then show ?thesis by (cases "filter P ws") auto
qed

lemma owner_worker:
  assumes "holders hw hm ws = (case m of None \<Rightarrow> 0 | Some t \<Rightarrow> 1)" "holder_ok m hw hm ws"
    "w < length ws" "hw (ws ! w)"
  shows "m = Some (Worker_thread w)"
proof (cases m)
  case None
  with assms(1) one_holder [of w ws hw, OF assms(3,4)] show ?thesis by (simp add: holders_def)
next
  case (Some t)
  show ?thesis
  proof (cases t)
    case Main_thread
    with Some assms(1,2) one_holder [of w ws hw, OF assms(3,4)] show ?thesis
      by (simp add: holders_def holder_ok_def)
  next
    case (Worker_thread x)
    with Some assms(2) have x: "x < length ws" "hw (ws ! x)" by (simp_all add: holder_ok_def)
    have "x = w"
    proof (rule ccontr)
      assume "x \<noteq> w"
      from two_holders [of x ws w hw, OF x(1) assms(3) this x(2) assms(4)] Some assms(1) show False
        by (simp add: holders_def)
    qed
    with Some Worker_thread show ?thesis by simp
  qed
qed

lemma owner_main:
  assumes "holders hw hm ws = (case m of None \<Rightarrow> 0 | Some t \<Rightarrow> 1)" "holder_ok m hw hm ws" "hm"
  shows "m = Some Main_thread"
proof (cases m)
  case None
  with assms(1,3) show ?thesis by (simp add: holders_def)
next
  case (Some t)
  show ?thesis
  proof (cases t)
    case Main_thread
    with Some show ?thesis by simp
  next
    case (Worker_thread x)
    with Some assms(2) have "x < length ws" "hw (ws ! x)" by (simp_all add: holder_ok_def)
    from one_holder [of x ws hw, OF this] Some assms(1,3) show ?thesis by (simp add: holders_def)
  qed
qed

lemma graph_owner_worker:
  assumes "invariant g s" "w < length (threads s)" "holds_graph_mutex (threads s ! w)"
  shows "graph_mutex s = Some (Worker_thread w)"
proof -
  from invariantD(1,2) [OF assms(1)]
  have "holders holds_graph_mutex (main_holds_graph_mutex (main_pc s)) (threads s) =
      (case graph_mutex s of None \<Rightarrow> 0 | Some t \<Rightarrow> 1)"
    "holder_ok (graph_mutex s) holds_graph_mutex (main_holds_graph_mutex (main_pc s)) (threads s)"
    by (simp_all add: count_inv_def holder_inv_def)
  from owner_worker [OF this assms(2,3)] show ?thesis .
qed

lemma graph_owner_main:
  assumes "invariant g s" "main_holds_graph_mutex (main_pc s)"
  shows "graph_mutex s = Some Main_thread"
proof -
  from invariantD(1,2) [OF assms(1)]
  have "holders holds_graph_mutex (main_holds_graph_mutex (main_pc s)) (threads s) =
      (case graph_mutex s of None \<Rightarrow> 0 | Some t \<Rightarrow> 1)"
    "holder_ok (graph_mutex s) holds_graph_mutex (main_holds_graph_mutex (main_pc s)) (threads s)"
    by (simp_all add: count_inv_def holder_inv_def)
  from owner_main [OF this assms(2)] show ?thesis .
qed

text \<open>What one step does to the statuses, the accumulator and the tasks.\<close>

lemma step_effect:
  assumes "step g e s = Some s'" "invariant g s"
  shows "(\<forall>j<length (visited s).
            visited s' ! j = visited s ! j \<or>
            visited s ! j = NOT_VISITED \<and> visited s' ! j = PROCESSING \<or>
            visited s ! j = PROCESSING \<and> visited s' ! j = DONE)"
    "created s' = created s \<or>
       (\<exists>j<length (visited s). created s' = created s + 1 \<and>
          visited s ! j = NOT_VISITED \<and> visited s' = (visited s)[j := PROCESSING] \<and>
          graph_mutex s' = Some (thread_of e) \<and> j \<in> set (inflight s'))"
    "sum_v s' = sum_v s \<and> accumulated s' = accumulated s \<or>
       (\<exists>j<length (visited s). sum_v s' = sum_v s + info (g ! j) \<and>
          accumulated s' = accumulated s @ [j] \<and>
          visited s ! j = PROCESSING \<and> visited s' = (visited s)[j := DONE] \<and>
          graph_mutex s' = Some (thread_of e))"
proof -
  note p = invariantD(4) [OF assms(2)]
  show "\<forall>j<length (visited s).
            visited s' ! j = visited s ! j \<or>
            visited s ! j = NOT_VISITED \<and> visited s' ! j = PROCESSING \<or>
            visited s ! j = PROCESSING \<and> visited s' ! j = DONE"
    using assms(1)
  proof (cases rule: step_cases)
  qed (use p in \<open>auto simp add: nth_list_update phase_inv_def list_all_length\<close>)
  show "created s' = created s \<or>
       (\<exists>j<length (visited s). created s' = created s + 1 \<and>
          visited s ! j = NOT_VISITED \<and> visited s' = (visited s)[j := PROCESSING] \<and>
          graph_mutex s' = Some (thread_of e) \<and> j \<in> set (inflight s'))"
    using assms(1)
  proof (cases rule: step_cases)
    case (for_claim w pick t i a b)
    with graph_owner_worker [OF assms(2), of w] show ?thesis
      by (auto simp add: inflight_def create_task_def)
  next
    case (seed pick idx)
    with p show ?thesis
      by (auto simp add: inflight_def create_task_def phase_inv_def list_all_length)
  qed auto
  show "sum_v s' = sum_v s \<and> accumulated s' = accumulated s \<or>
       (\<exists>j<length (visited s). sum_v s' = sum_v s + info (g ! j) \<and>
          accumulated s' = accumulated s @ [j] \<and>
          visited s ! j = PROCESSING \<and> visited s' = (visited s)[j := DONE] \<and>
          graph_mutex s' = Some (thread_of e))"
    using assms(1)
  proof (cases rule: step_cases)
  qed auto
qed

lemma lock_order_step:
  assumes "step g e s = Some s'" "invariant g s"
  shows "graph_mutex s' = graph_mutex s \<or> graph_mutex s' = None \<or>
         graph_mutex s = None \<and> graph_mutex s' = Some (thread_of e) \<and>
         mutex s \<noteq> Some (thread_of e)"
    "mutex s' = mutex s \<or> mutex s' = None \<or>
       mutex s = None \<and> mutex s' = Some (thread_of e) \<and>
       (graph_mutex s = Some (thread_of e) \<longrightarrow> in_enqueue_task s (thread_of e))"
proof -
  note h = invariantD(2) [OF assms(2)]
  show "graph_mutex s' = graph_mutex s \<or> graph_mutex s' = None \<or>
         graph_mutex s = None \<and> graph_mutex s' = Some (thread_of e) \<and>
         mutex s \<noteq> Some (thread_of e)"
    using assms(1)
  proof (cases rule: step_cases_idx)
  qed (use h in \<open>auto simp add: holder_inv_def holder_ok_def\<close>)
  show "mutex s' = mutex s \<or> mutex s' = None \<or>
       mutex s = None \<and> mutex s' = Some (thread_of e) \<and>
       (graph_mutex s = Some (thread_of e) \<longrightarrow> in_enqueue_task s (thread_of e))"
    using assms(1)
  proof (cases rule: step_cases_idx)
  qed (use h in \<open>auto simp add: holder_inv_def holder_ok_def\<close>)
qed

lemma both_locks:
  assumes "invariant g s" "mutex s = Some t" "graph_mutex s = Some t"
  shows "in_enqueue_task s t"
proof (cases t)
  case Main_thread
  with invariantD(2) [OF assms(1)] assms(2,3) show ?thesis
    by (cases "main_pc s") (auto simp add: holder_inv_def holder_ok_def)
next
  case (Worker_thread w)
  with invariantD(2) [OF assms(1)] assms(2,3)
  have "w < length (threads s)" "holds_mutex (threads s ! w)" "holds_graph_mutex (threads s ! w)"
    by (auto simp add: holder_inv_def holder_ok_def)
  with Worker_thread show ?thesis
    by (cases "threads s ! w") auto
qed

lemma mutex_holder_runs:
  assumes "invariant g s" "mutex s = Some t"
  shows "case t of
           Main_thread \<Rightarrow> main_step pick s \<noteq> None
         | Worker_thread w \<Rightarrow> thread_loop_function g w pick s \<noteq> None"
proof (cases t)
  case Main_thread
  with invariantD(2) [OF assms(1)] assms(2) have "main_holds_mutex (main_pc s)"
    by (simp add: holder_inv_def holder_ok_def)
  then have "main_runnable s (main_pc s)" by (cases "main_pc s") auto
  with main_runnable_step [of s pick] Main_thread show ?thesis by simp
next
  case (Worker_thread w)
  with invariantD(2) [OF assms(1)] assms(2)
  have w: "w < length (threads s)" "holds_mutex (threads s ! w)"
    by (auto simp add: holder_inv_def holder_ok_def)
  then have "runnable g s (threads s ! w)" by (cases "threads s ! w") auto
  with runnable_step [OF w(1), of g pick] Worker_thread show ?thesis by simp
qed

lemma created_bound:
  assumes "invariant g s"
  shows "created s \<le> length g"
proof -
  from invariantD(11) [OF assms] have e: "distinct (enqueued s @ inflight s)"
    "set (enqueued s @ inflight s) \<subseteq> {j. j < length (visited s)}"
    "created s = length (enqueued s @ inflight s)"
    by (auto simp add: enq_inv_def)
  from invariantD(3) [OF assms] have len: "length (visited s) = length g"
    by (simp add: tasks_inv_def)
  from e(1) have "length (enqueued s @ inflight s) = card (set (enqueued s @ inflight s))"
    by (simp only: distinct_card)
  also have "\<dots> \<le> card {j. j < length (visited s)}"
    using e(2) by (intro card_mono) auto
  finally show ?thesis using e(3) len by simp
qed

lemma done_state:
  assumes "invariant g s" "main_pc s = M_done"
  shows "list_all (\<lambda>p. p = W_exited) (threads s)" "head s = []" "owned s = 0"
proof -
  note i = invariantD [OF assms(1)]
  show ex: "list_all (\<lambda>p. p = W_exited) (threads s)"
    using i(5) assms(2) by (simp add: join_inv_def)
  show hd: "head s = []"
    using i(4) ex by (auto simp add: phase_inv_def)
  have "sum_list (map (\<lambda>p. length (pc_tasks p)) ws) = 0" if "list_all (\<lambda>p. p = W_exited) ws" for ws
    using that by (induction ws) auto
  from this [OF ex] hd assms(2) show "owned s = 0" by (simp add: owned_def)
qed

lemma reaches_done:
  assumes "invariant g s" "wf_graph g"
  shows "\<exists>es s'. run g es s = Some s' \<and> main_pc s' = M_done"
  using assms(1)
proof (induction "potential g s" arbitrary: s rule: less_induct)
  case less
  show ?case
  proof (cases "main_pc s = M_done")
    case True
    then have "run g [] s = Some s \<and> main_pc s = M_done" by simp
    then show ?thesis by blast
  next
    case False
    from progress [OF less.prems assms(2) False] obtain e s1 where s1: "step g e s = Some s1"
      by auto
    from less.hyps [OF potential_step [OF s1] invariant_step [OF s1 less.prems]]
    obtain es s' where "run g es s1 = Some s'" "main_pc s' = M_done" by blast
    with s1 have "run g (e # es) s = Some s' \<and> main_pc s' = M_done" by simp
    then show ?thesis by blast
  qed
qed

lemma run_append:
  "run g (es @ es') s = (case run g es s of None \<Rightarrow> None | Some s1 \<Rightarrow> run g es' s1)"
  by (induction es arbitrary: s) (auto split: option.splits)

lemmas run_defs = create_threadpool_def
      main_step_def thread_loop_function_def execute_enter_def execute_for_def enqueue_task_def
      dequeue_task_cases destroy_task_def destroy_threadpool_def create_task_def cond_signal_def
      cond_broadcast_def waiting_def spurious_wakeup_def

lemma reach_cycle: "reach cycle_graph = {0, 1}"
proof (intro set_eqI iffI)
  fix j assume "j \<in> reach cycle_graph"
  then show "j \<in> {0, 1}"
    by (induction rule: reach.induct) (auto simp add: cycle_graph_def nth_Cons')
next
  fix j :: nat assume "j \<in> {0, 1}"
  moreover have "(1::nat) \<in> reach cycle_graph"
    by (rule reach.edge [of 0]) (simp_all add: reach.start cycle_graph_def)
  ultimately show "j \<in> reach cycle_graph" using reach.start by auto
qed

lemma reach_wrap: "reach wrap_graph = {0, 1}"
proof (intro set_eqI iffI)
  fix j assume "j \<in> reach wrap_graph"
  then show "j \<in> {0, 1}"
    by (induction rule: reach.induct) (auto simp add: wrap_graph_def nth_Cons' split: if_splits)
next
  fix j :: nat assume "j \<in> {0, 1}"
  moreover have "(1::nat) \<in> reach wrap_graph"
    by (rule reach.edge [of 0]) (simp_all add: reach.start wrap_graph_def)
  ultimately show "j \<in> reach wrap_graph" using reach.start by auto
qed

lemma word_sum_sint:
  fixes f :: "nat \<Rightarrow> 32 word"
  shows "(\<Sum>j\<in>A. f j) = word_of_int (\<Sum>j\<in>A. sint (f j))"
  by (simp add: of_int_sum)

lemma woken_counter:
  assumes "step g e s = Some s'" "phase_inv s'" "w < length (threads s)"
    "threads s ! w = W_cond_wait" "threads s' ! w \<noteq> W_cond_wait" "e \<noteq> Spurious_wakeup w"
  shows "tasks_added s' \<noteq> 0"
  using assms(1)
proof (cases rule: step_cases_idx)
qed (use assms(2-) in \<open>auto simp add: phase_inv_def nth_list_update split: if_splits\<close>)

lemma tasks_added_step:
  assumes "step g e s = Some s'"
  shows "tasks_added s \<le> tasks_added s'"
  using assms
proof (cases rule: step_cases_idx)
qed (auto simp add: destroy_task_fields destroy_threadpool_fields)

lemma tasks_added_run:
  "run g es s = Some s' \<Longrightarrow> tasks_added s \<le> tasks_added s'"
proof (induction es arbitrary: s)
  case Nil
  then show ?case by simp
next
  case (Cons e es)
  then obtain s1 where "step g e s = Some s1" "run g es s1 = Some s'"
    by (auto split: option.splits)
  with Cons.IH [of s1] tasks_added_step [of g e s s1] show ?case by simp
qed

lemma added_step:
  assumes "step g e s = Some s'" "\<not> seeds (main_pc s)"
  shows "\<not> seeds (main_pc s')" "length (visited s') = length (visited s)"
    "j < length (visited s) \<Longrightarrow> visited s ! j = DONE \<Longrightarrow> visited s' ! j = DONE"
    "sum_v s' = sum_v s \<and> accumulated s' = accumulated s \<or>
       (\<exists>j<length (visited s). sum_v s' = sum_v s + info (g ! j) \<and>
          accumulated s' = accumulated s @ [j] \<and>
          visited s ! j = PROCESSING \<and> visited s' ! j = DONE)"
proof -
  show "\<not> seeds (main_pc s')"
    using assms(1)
  proof (cases rule: step_cases_idx)
  qed (use assms(2) in auto)
  show "length (visited s') = length (visited s)"
    using assms(1)
  proof (cases rule: step_cases_idx)
  qed (use assms(2) in auto)
  show "visited s' ! j = DONE" if "j < length (visited s)" "visited s ! j = DONE"
    using assms(1)
  proof (cases rule: step_cases_idx)
  qed (use assms(2) that in \<open>auto simp add: nth_list_update\<close>)
  show "sum_v s' = sum_v s \<and> accumulated s' = accumulated s \<or>
       (\<exists>j<length (visited s). sum_v s' = sum_v s + info (g ! j) \<and>
          accumulated s' = accumulated s @ [j] \<and>
          visited s ! j = PROCESSING \<and> visited s' ! j = DONE)"
    using assms(1)
  proof (cases rule: step_cases_idx)
  qed auto
qed

lemma added_once:
  "run g es s = Some s' \<Longrightarrow> \<not> seeds (main_pc s) \<Longrightarrow>
   \<exists>js. accumulated s' = accumulated s @ js \<and> distinct js \<and>
     sum_v s' = sum_v s + sum_list (map (\<lambda>j. info (g ! j)) js) \<and>
     list_all (\<lambda>j. j < length (visited s) \<and> visited s ! j \<noteq> DONE) js"
proof (induction es arbitrary: s)
  case Nil
  then show ?case by simp
next
  case (Cons e es)
  then obtain s1 where st: "step g e s = Some s1" and r: "run g es s1 = Some s'"
    by (auto split: option.splits)
  note a = added_step [OF st Cons.prems(2)]
  from Cons.IH [OF r a(1)] obtain js where js: "accumulated s' = accumulated s1 @ js"
    "distinct js" "sum_v s' = sum_v s1 + sum_list (map (\<lambda>j. info (g ! j)) js)"
    "list_all (\<lambda>j. j < length (visited s1) \<and> visited s1 ! j \<noteq> DONE) js"
    by blast
  have old: "list_all (\<lambda>j. j < length (visited s) \<and> visited s ! j \<noteq> DONE) js"
    using js(4) a(2) a(3) by (auto simp add: list_all_iff)
  from a(4) show ?case
  proof (elim disjE exE conjE)
    assume "sum_v s1 = sum_v s" "accumulated s1 = accumulated s"
    with js old show ?thesis by auto
  next
    fix j assume j: "j < length (visited s)" "sum_v s1 = sum_v s + info (g ! j)"
      "accumulated s1 = accumulated s @ [j]" "visited s ! j = PROCESSING" "visited s1 ! j = DONE"
    from js(4) j(5) have "j \<notin> set js" by (auto simp add: list_all_iff)
    with js old j have "accumulated s' = accumulated s @ (j # js) \<and> distinct (j # js) \<and>
      sum_v s' = sum_v s + sum_list (map (\<lambda>j. info (g ! j)) (j # js)) \<and>
      list_all (\<lambda>j. j < length (visited s) \<and> visited s ! j \<noteq> DONE) (j # js)"
      by (simp add: add.assoc)
    then show ?thesis by blast
  qed
qed

lemma reclaim_step:
  assumes "main_pc s = M_process_node_lock idx" "visited s ! idx = PROCESSING"
    "step g (Main_step p) s = Some s1"
  shows "visited s1 = visited s" "sum_v s1 = sum_v s" "accumulated s1 = accumulated s"
    "\<not> seeds (main_pc s1)" "created s1 = created s + 1"
  using assms by (auto simp add: main_step_def list_update_same_conv split: if_splits)

section \<open>The claims\<close>

text \<open>
  C1. For any finite graph, once the driver has seeded the traversal at node 0 and
  \<^verbatim>\<open>wait_for_completion\<close> has returned (the main thread is at \<open>M_destroy\<close> or at
  \<open>M_done\<close>), the accumulator is the sum of the weights of the nodes reachable from
  node 0, each counted once: the log of the additions is a duplicate-free enumeration of
  the reachable nodes. This holds for every number \<open>n > 0\<close> of workers, every schedule
  \<open>es\<close> and every bound \<open>k\<close> on the spurious wake-ups. The sum is a sum of C \<^verbatim>\<open>int\<close>s, in
  32-bit arithmetic.
\<close>

theorem traversal_sums_reachable_weights:
  assumes "0 < n" and "run g es (create_threadpool g n k) = Some s"
    and "main_pc s = M_destroy \<or> main_pc s = M_done"
  shows "sum_v s = (\<Sum>j\<in>reach g. info (g ! j)) \<and> distinct (accumulated s) \<and>
         set (accumulated s) = reach g"
proof -
  from invariant_run [OF assms(2) invariant_init [OF assms(1)]] have "invariant g s" .
  from final_sum [OF this assms(3)] show ?thesis by simp
qed

theorem traversal_sums_reachable_weights_witness:
  "run cycle_graph pool_schedule (create_threadpool cycle_graph 2 2) = Some pool_done \<and>
   main_pc pool_done = M_done \<and>
   sum_v pool_done = (\<Sum>j\<in>reach cycle_graph. info (cycle_graph ! j)) \<and>
   set (accumulated pool_done) = reach cycle_graph \<and> sum_v pool_done = 3"
proof -
  have r: "run cycle_graph pool_schedule (create_threadpool cycle_graph 2 2) = Some pool_done"
    by code_simp
  have m: "main_pc pool_done = M_destroy \<or> main_pc pool_done = M_done"
    by (simp add: pool_done_def)
  from traversal_sums_reachable_weights [OF _ r m] r show ?thesis
    by (simp add: pool_done_def)
qed

text \<open>
  C2. In every run of the driver, a step leaves the status of a node as it is or moves it
  from \<^verbatim>\<open>NOT_VISITED\<close> to \<^verbatim>\<open>PROCESSING\<close> (the CLAIMED status) or from \<^verbatim>\<open>PROCESSING\<close> to
  \<^verbatim>\<open>DONE\<close>: no transition is reversed, so none is repeated. The accumulator changes only
  by the weight of a node that this very step moves from \<^verbatim>\<open>PROCESSING\<close> to \<^verbatim>\<open>DONE\<close>, under
  the graph lock; the nodes added so far are the \<^verbatim>\<open>DONE\<close> nodes, each once. A task is
  created only by a step that moves its node from \<^verbatim>\<open>NOT_VISITED\<close> to \<^verbatim>\<open>PROCESSING\<close> while
  the stepping thread holds the graph lock, and no node index is enqueued twice: the
  indices enqueued so far, followed by those of the tasks created and not yet enqueued,
  are pairwise distinct and as many as the tasks created.
\<close>

theorem visit_once_invariant:
  assumes "0 < n" and "run g es (create_threadpool g n k) = Some s" and "step g e s = Some s'"
  shows "(\<forall>j<length (visited s).
            visited s' ! j = visited s ! j \<or>
            visited s ! j = NOT_VISITED \<and> visited s' ! j = PROCESSING \<or>
            visited s ! j = PROCESSING \<and> visited s' ! j = DONE) \<and>
         (sum_v s' = sum_v s \<and> accumulated s' = accumulated s \<or>
          (\<exists>j<length (visited s). sum_v s' = sum_v s + info (g ! j) \<and>
             accumulated s' = accumulated s @ [j] \<and>
             visited s ! j = PROCESSING \<and> visited s' = (visited s)[j := DONE] \<and>
             graph_mutex s' = Some (thread_of e))) \<and>
         distinct (accumulated s') \<and>
         sum_v s' = sum_list (map (\<lambda>j. info (g ! j)) (accumulated s')) \<and>
         set (accumulated s') = with_status DONE (visited s') \<and>
         (created s' = created s \<or>
          (\<exists>j<length (visited s). created s' = created s + 1 \<and>
             visited s ! j = NOT_VISITED \<and> visited s' = (visited s)[j := PROCESSING] \<and>
             graph_mutex s' = Some (thread_of e) \<and> j \<in> set (inflight s'))) \<and>
         distinct (enqueued s' @ inflight s') \<and>
         created s' = length (enqueued s' @ inflight s')"
proof -
  from invariant_run [OF assms(2) invariant_init [OF assms(1)]] have i: "invariant g s" .
  from invariant_step [OF assms(3) i] have i': "invariant g s'" .
  from invariantD(6) [OF i'] have "distinct (accumulated s')"
    "sum_v s' = sum_list (map (\<lambda>j. info (g ! j)) (accumulated s'))"
    "set (accumulated s') = with_status DONE (visited s')"
    by (simp_all add: acc_inv_def)
  moreover from invariantD(11) [OF i'] have "distinct (enqueued s' @ inflight s')"
    "created s' = length (enqueued s' @ inflight s')"
    by (simp_all add: enq_inv_def)
  ultimately show ?thesis
    using step_effect [OF assms(3) i] by blast
qed

theorem visit_once_invariant_witness:
  "run cycle_graph claim_schedule (create_threadpool cycle_graph 2 2) = Some claim_before \<and>
   step cycle_graph (Worker_step 1 1) claim_before = Some claim_after \<and>
   visited claim_before = [DONE, NOT_VISITED] \<and> visited claim_after = [DONE, PROCESSING] \<and>
   created claim_after = created claim_before + 1 \<and>
   graph_mutex claim_after = Some (Worker_thread 1) \<and>
   distinct (enqueued claim_after @ inflight claim_after) \<and>
   sum_v claim_after = sum_list (map (\<lambda>j. info (cycle_graph ! j)) (accumulated claim_after))"
proof -
  have r: "run cycle_graph claim_schedule (create_threadpool cycle_graph 2 2) = Some claim_before"
    by code_simp
  have st: "step cycle_graph (Worker_step 1 1) claim_before = Some claim_after"
    by code_simp
  from visit_once_invariant [OF _ r st] r st show ?thesis
    by (simp add: claim_before_def claim_after_def)
qed

text \<open>
  C3. \<^verbatim>\<open>dequeue_task\<close> blocks exactly when the queue is empty and no task has ever been
  submitted. When the queue is not empty it removes the head task and returns it; when
  the queue is empty and the counter is not zero it returns \<^verbatim>\<open>NULL\<close> at once. A thread
  that has been woken takes the mutex and the test of line 87 again: it goes on with the
  head task, returns \<^verbatim>\<open>NULL\<close> on an empty queue with a counter that is not zero, and
  blocks again on an empty queue with a zero counter. In every run of the driver, a
  worker that \<^verbatim>\<open>pthread_cond_signal\<close> or \<^verbatim>\<open>pthread_cond_broadcast\<close> has woken finds the
  counter not zero, then and ever after: it does not block again.
\<close>

theorem dequeue_task_blocks_only_initially:
  "(fst (dequeue_task s) = Blocked \<longleftrightarrow> head s = [] \<and> tasks_added s = 0) \<and>
   (head s \<noteq> [] \<longrightarrow>
      dequeue_task s = (Returned (Some (hd (head s))), s\<lparr>head := tl (head s), mutex := None\<rparr>)) \<and>
   (head s = [] \<and> tasks_added s \<noteq> 0 \<longrightarrow> dequeue_task s = (Returned None, s\<lparr>mutex := None\<rparr>)) \<and>
   (w < length (threads s) \<and> threads s ! w = W_dequeue_lock \<and> mutex s = None \<longrightarrow>
      run g [Worker_step w p, Worker_step w q] s =
        Some (s\<lparr>head := tl (head s), mutex := None,
          threads := (threads s)[w :=
            (if head s \<noteq> [] then W_execute_lock (hd (head s))
             else if tasks_added s = 0 then W_cond_wait else W_exited)]\<rparr>)) \<and>
   (0 < n \<and> run g es (create_threadpool g n k) = Some s1 \<and> step g e s1 = Some s2 \<and>
    w < length (threads s1) \<and> threads s1 ! w = W_cond_wait \<and> threads s2 ! w \<noteq> W_cond_wait \<and>
    e \<noteq> Spurious_wakeup w \<and> run g es' s2 = Some s3 \<longrightarrow>
      tasks_added s3 \<noteq> 0 \<and> fst (dequeue_task s3) \<noteq> Blocked)"
proof -
  have "tasks_added s3 \<noteq> 0 \<and> fst (dequeue_task s3) \<noteq> Blocked"
    if "0 < n" "run g es (create_threadpool g n k) = Some s1" "step g e s1 = Some s2"
      "w < length (threads s1)" "threads s1 ! w = W_cond_wait" "threads s2 ! w \<noteq> W_cond_wait"
      "e \<noteq> Spurious_wakeup w" "run g es' s2 = Some s3"
  proof -
    from invariant_run [OF that(2) invariant_init [OF that(1)]] have "invariant g s1" .
    from invariant_step [OF that(3) this] have "phase_inv s2" by (rule invariantD(4))
    from woken_counter [OF that(3) this that(4-7)] tasks_added_run [OF that(8)]
    have "tasks_added s3 \<noteq> 0" by simp
    then show ?thesis by (simp add: dequeue_task_cases)
  qed
  moreover have "run g [Worker_step w p, Worker_step w q] s =
        Some (s\<lparr>head := tl (head s), mutex := None,
          threads := (threads s)[w :=
            (if head s \<noteq> [] then W_execute_lock (hd (head s))
             else if tasks_added s = 0 then W_cond_wait else W_exited)]\<rparr>)"
    if "w < length (threads s)" "threads s ! w = W_dequeue_lock" "mutex s = None"
    using that by (cases "head s") (simp_all add: thread_loop_function_def dequeue_task_cases)
  ultimately show ?thesis
    by (simp add: dequeue_task_cases)
qed

theorem dequeue_task_blocks_only_initially_witness:
  "fst (dequeue_task (create_threadpool cycle_graph 1 0)) = Blocked \<and>
   head cycle_done = [] \<and> tasks_added cycle_done = 2 \<and>
   dequeue_task cycle_done = (Returned None, cycle_done\<lparr>mutex := None\<rparr>) \<and>
   dequeue_task leftover =
     (Returned (Some (create_task Execute 0 (Some Free))),
      leftover\<lparr>head := [create_task Execute 1 None], mutex := None\<rparr>) \<and>
   run cycle_graph [Worker_step 0 0, Worker_step 0 0] woken_state = Some blocked_state \<and>
   run cycle_graph [Worker_step 0 0, Worker_step 0 0] seeded_state =
     Some (seeded_state\<lparr>head := [], threads := [W_execute_lock (create_task Execute 0 (Some Free))]\<rparr>) \<and>
   run cycle_graph wake_schedule (create_threadpool cycle_graph 2 2) = Some wake_before \<and>
   step cycle_graph (Main_step 1) wake_before = Some wake_after \<and>
   threads wake_before ! 1 = W_cond_wait \<and> threads wake_after ! 1 = W_dequeue_lock \<and>
   tasks_added wake_after \<noteq> 0 \<and> fst (dequeue_task wake_after) \<noteq> Blocked"
proof -
  have r: "run cycle_graph wake_schedule (create_threadpool cycle_graph 2 2) = Some wake_before"
    by code_simp
  have st: "step cycle_graph (Main_step 1) wake_before = Some wake_after"
    by code_simp
  have n: "run cycle_graph [] wake_after = Some wake_after" by simp
  have a: "fst (dequeue_task (create_threadpool cycle_graph 1 0)) = Blocked \<and>
   head cycle_done = [] \<and> tasks_added cycle_done = 2 \<and>
   dequeue_task cycle_done = (Returned None, cycle_done\<lparr>mutex := None\<rparr>) \<and>
   dequeue_task leftover =
     (Returned (Some (create_task Execute 0 (Some Free))),
      leftover\<lparr>head := [create_task Execute 1 None], mutex := None\<rparr>)"
    using dequeue_task_blocks_only_initially [of "create_threadpool cycle_graph 1 0"]
      dequeue_task_blocks_only_initially [of cycle_done]
      dequeue_task_blocks_only_initially [of leftover]
    by (simp add: create_threadpool_def cycle_done_def leftover_def)
  have c: "run cycle_graph [Worker_step 0 0, Worker_step 0 0] woken_state = Some blocked_state"
    using dequeue_task_blocks_only_initially [of woken_state 0 cycle_graph 0 0]
    by (simp add: woken_state_def blocked_state_def)
  have d: "run cycle_graph [Worker_step 0 0, Worker_step 0 0] seeded_state =
     Some (seeded_state\<lparr>head := [],
       threads := [W_execute_lock (create_task Execute 0 (Some Free))]\<rparr>)"
    using dequeue_task_blocks_only_initially [of seeded_state 0 cycle_graph 0 0]
    by (simp add: seeded_state_def)
  have b: "1 < length (threads wake_before) \<and> threads wake_before ! 1 = W_cond_wait \<and>
      threads wake_after ! 1 \<noteq> W_cond_wait \<and> Main_step 1 \<noteq> Spurious_wakeup 1 \<and>
      threads wake_after ! 1 = W_dequeue_lock"
    by (simp add: wake_before_def wake_after_def)
  have z: "0 < (2::nat)" by simp
  from dequeue_task_blocks_only_initially [of wake_after 1 cycle_graph 0 0 2 wake_schedule 2
      wake_before "Main_step 1" wake_after "[]" wake_after] z r st n b
  have "tasks_added wake_after \<noteq> 0 \<and> fst (dequeue_task wake_after) \<noteq> Blocked"
    by blast
  with a c d r st b show ?thesis by blast
qed

text \<open>
  A thread woken while the queue is empty does not return \<^verbatim>\<open>NULL\<close> whatever the counter
  is: after a spurious wake-up, with the queue empty and the counter zero, the only worker
  of the pool takes the mutex, finds the condition of the \<^verbatim>\<open>while\<close> of line 87 true and
  blocks again.
\<close>

theorem dequeue_task_blocks_again:
  "run cycle_graph [Worker_step 0 0, Worker_step 0 0] (create_threadpool cycle_graph 1 1) =
     Some (blocked_state\<lparr>spurious := 1\<rparr>) \<and>
   step cycle_graph (Spurious_wakeup 0) (blocked_state\<lparr>spurious := 1\<rparr>) = Some woken_state \<and>
   threads woken_state = [W_dequeue_lock] \<and> head woken_state = [] \<and>
   tasks_added woken_state = 0 \<and>
   step cycle_graph (Worker_step 0 0) woken_state =
     Some (woken_state\<lparr>mutex := Some (Worker_thread 0), threads := [W_dequeue_test]\<rparr>) \<and>
   fst (dequeue_task (woken_state\<lparr>mutex := Some (Worker_thread 0),
     threads := [W_dequeue_test]\<rparr>)) = Blocked \<and>
   fst (dequeue_task (woken_state\<lparr>mutex := Some (Worker_thread 0),
     threads := [W_dequeue_test]\<rparr>)) \<noteq> Returned None \<and>
   run cycle_graph [Worker_step 0 0, Worker_step 0 0] woken_state = Some blocked_state \<and>
   threads blocked_state = [W_cond_wait]"
  by (simp add: create_threadpool_def cycle_graph_def blocked_state_def woken_state_def
      thread_loop_function_def dequeue_task_cases spurious_wakeup_def)

text \<open>
  C4. For a well-formed finite graph (node 0 exists and every neighbour index is a node),
  cycles included, the traversal terminates. Every schedule is bounded: its length plus the
  potential of the state it reaches is at most the potential of the initial state, a
  number fixed by the graph, the number of workers and the bound on spurious wake-ups.
  At most one task per node is ever created. As long as the main thread has not finished,
  some thread can take a step, and every run can be continued to a state in which every
  worker has returned from its loop on an empty queue and \<^verbatim>\<open>wait_for_completion\<close>,
  \<^verbatim>\<open>destroy_threadpool\<close> and the print are done. On the two-node cycle with weights 1
  and 2 every completed run prints 3.
\<close>

theorem traversal_terminates:
  assumes "wf_graph g" and "0 < n" and "run g es (create_threadpool g n k) = Some s"
  shows "length es + potential g s \<le> potential g (create_threadpool g n k) \<and>
         created s \<le> length g \<and>
         (main_pc s \<noteq> M_done \<longrightarrow> (\<exists>e. step g e s \<noteq> None)) \<and>
         (\<exists>es' s'. run g (es @ es') (create_threadpool g n k) = Some s' \<and>
            main_pc s' = M_done \<and> list_all (\<lambda>p. p = W_exited) (threads s') \<and>
            head s' = []) \<and>
         (\<forall>es' s'. run cycle_graph es' (create_threadpool cycle_graph n k) = Some s' \<and>
            main_pc s' = M_done \<longrightarrow> sum_v s' = 3)"
proof -
  from invariant_run [OF assms(3) invariant_init [OF assms(2)]] have i: "invariant g s" .
  have 1: "length es + potential g s \<le> potential g (create_threadpool g n k)"
    by (rule potential_run [OF assms(3)])
  have 2: "created s \<le> length g"
    by (rule created_bound [OF i])
  have 3: "main_pc s \<noteq> M_done \<longrightarrow> (\<exists>e. step g e s \<noteq> None)"
    using progress [OF i assms(1)] by blast
  have 4: "\<exists>es' s'. run g (es @ es') (create_threadpool g n k) = Some s' \<and>
            main_pc s' = M_done \<and> list_all (\<lambda>p. p = W_exited) (threads s') \<and> head s' = []"
  proof -
    from reaches_done [OF i assms(1)] obtain es' s' where
      d: "run g es' s = Some s'" "main_pc s' = M_done" by blast
    from invariant_run [OF d(1) i] have "invariant g s'" .
    from done_state(1,2) [OF this d(2)] d assms(3) show ?thesis
      by (auto simp add: run_append)
  qed
  have 5: "\<forall>es' s'. run cycle_graph es' (create_threadpool cycle_graph n k) = Some s' \<and>
            main_pc s' = M_done \<longrightarrow> sum_v s' = 3"
  proof (intro allI impI)
    fix es' s'
    assume a: "run cycle_graph es' (create_threadpool cycle_graph n k) = Some s' \<and>
      main_pc s' = M_done"
    then have "invariant cycle_graph s'"
      using invariant_run invariant_init [OF assms(2)] by blast
    from final_sum(3) [OF this] a have "sum_v s' = (\<Sum>j\<in>reach cycle_graph. info (cycle_graph ! j))"
      by simp
    then show "sum_v s' = 3"
      unfolding reach_cycle by (simp add: cycle_graph_def)
  qed
  from 1 2 3 4 5 show ?thesis by blast
qed

theorem traversal_terminates_witness:
  "wf_graph cycle_graph \<and>
   run cycle_graph claim_schedule (create_threadpool cycle_graph 2 2) = Some claim_before \<and>
   length claim_schedule + potential cycle_graph claim_before \<le>
     potential cycle_graph (create_threadpool cycle_graph 2 2) \<and>
   potential cycle_graph (create_threadpool cycle_graph 2 2) = 52 \<and>
   created claim_before \<le> length cycle_graph \<and>
   (\<exists>e. step cycle_graph e claim_before \<noteq> None) \<and>
   (\<exists>es' s'. run cycle_graph (claim_schedule @ es') (create_threadpool cycle_graph 2 2) = Some s' \<and>
      main_pc s' = M_done \<and> sum_v s' = 3)"
proof -
  have w: "wf_graph cycle_graph"
    by (simp add: wf_graph_def cycle_graph_def)
  have r: "run cycle_graph claim_schedule (create_threadpool cycle_graph 2 2) = Some claim_before"
    by code_simp
  have p: "potential cycle_graph (create_threadpool cycle_graph 2 2) = 52"
    by code_simp
  have z: "0 < (2::nat)" by simp
  note t = traversal_terminates [OF w z r]
  have m: "main_pc claim_before \<noteq> M_done"
    by (simp add: claim_before_def)
  from t have a: "length claim_schedule + potential cycle_graph claim_before \<le>
      potential cycle_graph (create_threadpool cycle_graph 2 2)"
    "created claim_before \<le> length cycle_graph" by blast+
  from t m have b: "\<exists>e. step cycle_graph e claim_before \<noteq> None" by blast
  from t obtain es' s' where d: "run cycle_graph (claim_schedule @ es')
      (create_threadpool cycle_graph 2 2) = Some s'" "main_pc s' = M_done" by blast
  with t have "sum_v s' = 3" by blast
  with d have c: "\<exists>es' s'. run cycle_graph (claim_schedule @ es')
      (create_threadpool cycle_graph 2 2) = Some s' \<and> main_pc s' = M_done \<and> sum_v s' = 3"
    by blast
  from w r p a b c show ?thesis by blast
qed

text \<open>
  C5. The queue is first in, first out. For a single consumer and any sequence of
  \<^verbatim>\<open>enqueue_task\<close> and \<^verbatim>\<open>dequeue_task\<close> calls, the tasks dequeued, followed by the tasks
  left in the queue, are the tasks of the initial queue followed by the tasks enqueued, in
  that order: \<^verbatim>\<open>enqueue_task\<close> appends at the tail and \<^verbatim>\<open>dequeue_task\<close> removes the head.
  When \<open>a\<close> is enqueued and then \<open>b\<close>, with no dequeue in between, the tasks dequeued from
  then on form a prefix of the old queue followed by \<open>a\<close>, \<open>b\<close> and the later tasks: when
  \<open>b\<close> has been dequeued, \<open>a\<close> was dequeued just before it.
\<close>

theorem queue_is_fifo:
  "fst (queue_run ops s) @ head (snd (queue_run ops s)) = head s @ enqueues ops \<and>
   head (enqueue_task t pick s) = head s @ [t] \<and>
   (\<exists>k. fst (queue_run (Enqueue a p # Enqueue b q # ops) s) =
      take k (head s @ a # b # enqueues ops)) \<and>
   (length (head s) + 1 < length (fst (queue_run (Enqueue a p # Enqueue b q # ops) s)) \<longrightarrow>
      fst (queue_run (Enqueue a p # Enqueue b q # ops) s) ! length (head s) = a \<and>
      fst (queue_run (Enqueue a p # Enqueue b q # ops) s) ! (length (head s) + 1) = b)"
proof -
  define outs where "outs = fst (queue_run (Enqueue a p # Enqueue b q # ops) s)"
  have "outs @ head (snd (queue_run (Enqueue a p # Enqueue b q # ops) s)) =
    head s @ enqueues (Enqueue a p # Enqueue b q # ops)"
    unfolding outs_def by (rule queue_run_fifo)
  then have pre: "outs = take (length outs) (head s @ a # b # enqueues ops)"
    by (metis append_eq_conv_conj enqueues.simps(2))
  have "outs ! length (head s) = a \<and> outs ! (length (head s) + 1) = b"
    if "length (head s) + 1 < length outs"
  proof -
    have "outs ! i = (head s @ a # b # enqueues ops) ! i" if "i < length outs" for i
    proof -
      from pre have "outs ! i = take (length outs) (head s @ a # b # enqueues ops) ! i"
        by (rule arg_cong)
      also from that have "\<dots> = (head s @ a # b # enqueues ops) ! i"
        by (rule nth_take)
      finally show ?thesis .
    qed
    from this [of "length (head s)"] this [of "length (head s) + 1"] that
    show ?thesis by (simp add: nth_append)
  qed
  with pre show ?thesis
    using queue_run_fifo [of ops s] unfolding outs_def
    by (auto simp add: enqueue_task_def)
qed

theorem queue_is_fifo_witness:
  "fst (queue_run [Enqueue (create_task Execute 5 None) 0, Enqueue (create_task Execute 6 None) 0,
        Dequeue, Enqueue (create_task Execute 7 None) 0, Dequeue, Dequeue, Dequeue] leftover) =
     [create_task Execute 0 (Some Free), create_task Execute 1 None,
      create_task Execute 5 None, create_task Execute 6 None] \<and>
   head (snd (queue_run [Enqueue (create_task Execute 5 None) 0,
        Enqueue (create_task Execute 6 None) 0,
        Dequeue, Enqueue (create_task Execute 7 None) 0, Dequeue, Dequeue, Dequeue] leftover)) =
     [create_task Execute 7 None]"
  using queue_is_fifo [of "[Dequeue, Enqueue (create_task Execute 7 None) 0, Dequeue, Dequeue,
        Dequeue]" leftover "create_task Execute 7 None" 0 "create_task Execute 5 None" 0 "create_task Execute 6 None" 0]
  by (simp add: leftover_def cycle_done_def create_task_def dequeue_task_cases enqueue_task_def
      cond_signal_def waiting_def)

text \<open>
  C6. When \<^verbatim>\<open>execute\<close> runs for a node whose status is not \<^verbatim>\<open>PROCESSING\<close>
  (\<^verbatim>\<open>NOT_VISITED\<close> or \<^verbatim>\<open>DONE\<close>), it changes nothing: the worker takes the graph lock and
  releases it, and after these two steps the accumulator, the status of every node and
  the task queue are as they were; no task has been created or enqueued. The worker is
  back at the head of its loop.
\<close>

theorem execute_stale_task_changes_nothing:
  assumes "w < length (threads s)" and "threads s ! w = W_execute_lock t"
    and "graph_mutex s = None" and "argument t < length (visited s)" and "argument t < length g"
    and "visited s ! argument t \<noteq> PROCESSING"
  shows "\<exists>s'. run g [Worker_step w p, Worker_step w q] s = Some s' \<and>
           sum_v s' = sum_v s \<and> visited s' = visited s \<and> head s' = head s \<and>
           tasks_added s' = tasks_added s \<and> accumulated s' = accumulated s \<and>
           enqueued s' = enqueued s \<and> created s' = created s \<and>
           graph_mutex s' = None \<and> threads s' = (threads s)[w := W_dequeue_lock]"
  using assms
  by (simp add: thread_loop_function_def execute_enter_def)

theorem execute_stale_task_changes_nothing_witness:
  "visited stale_state = [DONE, NOT_VISITED] \<and>
   run cycle_graph [Worker_step 0 0, Worker_step 0 0, Worker_step 1 0, Worker_step 1 0] stale_state =
     Some (stale_state\<lparr>threads := [W_dequeue_lock, W_dequeue_lock],
       args_destroyed := 2, tasks_freed := 2\<rparr>)"
proof -
  from execute_stale_task_changes_nothing [of 0 stale_state "create_task Execute 0 (Some Free)"
      cycle_graph 0 0]
  obtain s1 where s1: "run cycle_graph [Worker_step 0 0, Worker_step 0 0] stale_state = Some s1"
    "sum_v s1 = sum_v stale_state" "visited s1 = visited stale_state"
    by (auto simp add: stale_state_def cycle_graph_def create_task_def)
  have "visited stale_state = [DONE, NOT_VISITED]"
    by (simp add: stale_state_def)
  moreover have "run cycle_graph [Worker_step 0 0, Worker_step 0 0, Worker_step 1 0,
      Worker_step 1 0] stale_state =
    Some (stale_state\<lparr>threads := [W_dequeue_lock, W_dequeue_lock],
       args_destroyed := 2, tasks_freed := 2\<rparr>)"
    using s1 by code_simp
  ultimately show ?thesis by blast
qed

text \<open>
  C7. \<^verbatim>\<open>destroy_threadpool\<close> frees every task still in the queue, whatever the queue
  holds, and calls the argument destructor of each task that has one; it leaves the queue
  empty. Over a whole run of the driver the destructor has been called, and a task freed,
  once per task created.
\<close>

theorem destroy_threadpool_frees_all:
  "head (destroy_threadpool s) = [] \<and>
   tasks_freed (destroy_threadpool s) = tasks_freed s + length (head s) \<and>
   args_destroyed (destroy_threadpool s) =
     args_destroyed s + length (filter (\<lambda>t. destroy_arg t \<noteq> None) (head s)) \<and>
   (0 < n \<and> run g es (create_threadpool g n k) = Some s' \<and> main_pc s' = M_done \<longrightarrow>
      args_destroyed s' = created s' \<and> tasks_freed s' = created s')"
proof -
  have "args_destroyed s' = created s' \<and> tasks_freed s' = created s'"
    if "0 < n" "run g es (create_threadpool g n k) = Some s'" "main_pc s' = M_done"
  proof -
    from invariant_run [OF that(2) invariant_init [OF that(1)]] have i: "invariant g s'" .
    from invariantD(12) [OF i] done_state(3) [OF i that(3)] show ?thesis
      by (simp add: free_inv_def)
  qed
  then show ?thesis by simp
qed

theorem destroy_threadpool_frees_all_witness:
  "head leftover = [create_task Execute 0 (Some Free), create_task Execute 1 None] \<and>
   head (destroy_threadpool leftover) = [] \<and>
   tasks_freed (destroy_threadpool leftover) = tasks_freed leftover + 2 \<and>
   args_destroyed (destroy_threadpool leftover) = args_destroyed leftover + 1 \<and>
   run cycle_graph cycle_schedule (create_threadpool cycle_graph 1 0) = Some cycle_done \<and>
   main_pc cycle_done = M_done \<and>
   args_destroyed cycle_done = created cycle_done \<and> tasks_freed cycle_done = created cycle_done"
proof -
  have r: "run cycle_graph cycle_schedule (create_threadpool cycle_graph 1 0) = Some cycle_done"
    by code_simp
  have m: "main_pc cycle_done = M_done" by (simp add: cycle_done_def)
  from destroy_threadpool_frees_all [of leftover 1 cycle_graph cycle_schedule 0 cycle_done] r m
  show ?thesis
    by (simp add: leftover_def create_task_def)
qed

text \<open>
  C8. In every run of the driver: a step that takes the graph lock is made by a thread
  that does not hold the queue lock; a step that takes the queue lock while its thread
  holds the graph lock is made inside \<^verbatim>\<open>enqueue_task\<close>; a thread that holds both locks is
  inside \<^verbatim>\<open>enqueue_task\<close>, so it took the graph lock first. The holder of the queue lock
  can always take its next step: it never waits for the graph lock, and the two locks
  cannot deadlock.
\<close>

theorem lock_order_graph_then_queue:
  assumes "0 < n" and "run g es (create_threadpool g n k) = Some s" and "step g e s = Some s'"
  shows "(graph_mutex s' = graph_mutex s \<or> graph_mutex s' = None \<or>
          graph_mutex s = None \<and> graph_mutex s' = Some (thread_of e) \<and>
          mutex s \<noteq> Some (thread_of e)) \<and>
         (mutex s' = mutex s \<or> mutex s' = None \<or>
          mutex s = None \<and> mutex s' = Some (thread_of e) \<and>
          (graph_mutex s = Some (thread_of e) \<longrightarrow> in_enqueue_task s (thread_of e))) \<and>
         (\<forall>t. mutex s = Some t \<and> graph_mutex s = Some t \<longrightarrow> in_enqueue_task s t) \<and>
         (\<forall>t pick. mutex s = Some t \<longrightarrow>
            (case t of
               Main_thread \<Rightarrow> main_step pick s \<noteq> None
             | Worker_thread w \<Rightarrow> thread_loop_function g w pick s \<noteq> None))"
proof -
  from invariant_run [OF assms(2) invariant_init [OF assms(1)]] have i: "invariant g s" .
  from lock_order_step [OF assms(3) i] both_locks [OF i] mutex_holder_runs [OF i]
  show ?thesis by blast
qed

theorem lock_order_graph_then_queue_witness:
  "run cycle_graph (claim_schedule @ [Worker_step 1 1]) (create_threadpool cycle_graph 2 2) =
     Some claim_after \<and>
   step cycle_graph (Worker_step 1 1) claim_after = Some claim_locked \<and>
   graph_mutex claim_after = Some (Worker_thread 1) \<and> mutex claim_after = None \<and>
   mutex claim_locked = Some (Worker_thread 1) \<and>
   graph_mutex claim_locked = Some (Worker_thread 1) \<and>
   in_enqueue_task claim_after (Worker_thread 1)"
proof -
  have r: "run cycle_graph (claim_schedule @ [Worker_step 1 1])
      (create_threadpool cycle_graph 2 2) = Some claim_after"
    by code_simp
  have st: "step cycle_graph (Worker_step 1 1) claim_after = Some claim_locked"
    by code_simp
  from lock_order_graph_then_queue [OF _ r st] r st show ?thesis
    by (simp add: claim_after_def claim_locked_def)
qed

text \<open>
  C9. \<^verbatim>\<open>process_node\<close> claims its node without looking at its status: for every index
  in range, whatever the status was, its four steps set the status to \<^verbatim>\<open>PROCESSING\<close> and
  append a task for the node to the queue. Seeding a node that is \<^verbatim>\<open>DONE\<close> claims it
  again, and its weight is added again: with one idle worker and an empty queue, the
  worker that takes the task adds the weight of the node to the accumulator a second
  time. Seeding a node that is already \<^verbatim>\<open>PROCESSING\<close> leaves every status as it is and
  creates a second task for the node, but the weight is not added twice: in every run
  that follows the claim, on every schedule, no node is added more than once and no node
  that was \<^verbatim>\<open>DONE\<close> is added.
\<close>

theorem process_node_claims_unconditionally:
  "(main_pc s = M_process_node_lock idx \<and> graph_mutex s = None \<and> mutex s = None \<and>
    idx < length (visited s) \<longrightarrow>
      (\<exists>s'. run g [Main_step p, Main_step p, Main_step p, Main_step p] s = Some s' \<and>
         visited s' = (visited s)[idx := PROCESSING] \<and>
         head s' = head s @ [create_task Execute idx (Some Free)] \<and>
         created s' = created s + 1 \<and> sum_v s' = sum_v s \<and> main_pc s' = M_wait_lock)) \<and>
   (main_pc s = M_process_node_lock idx \<and> graph_mutex s = None \<and> mutex s = None \<and>
    idx < length (visited s) \<and> visited s ! idx = DONE \<and>
    idx < length g \<and> threads s = [W_dequeue_lock] \<and> head s = [] \<longrightarrow>
      (\<exists>s'. run g [Main_step p, Main_step p, Main_step p, Main_step p,
                  Worker_step 0 p, Worker_step 0 p, Worker_step 0 p] s = Some s' \<and>
         sum_v s' = sum_v s + info (g ! idx) \<and>
         accumulated s' = accumulated s @ [idx] \<and>
         visited s' = visited s)) \<and>
   (main_pc s = M_process_node_lock idx \<and> visited s ! idx = PROCESSING \<and>
    step g (Main_step p) s = Some s1 \<and> run g es s1 = Some s2 \<longrightarrow>
      visited s1 = visited s \<and> created s1 = created s + 1 \<and>
      (\<exists>js. accumulated s2 = accumulated s @ js \<and> distinct js \<and>
         sum_v s2 = sum_v s + sum_list (map (\<lambda>j. info (g ! j)) js) \<and>
         list_all (\<lambda>j. j < length (visited s) \<and> visited s ! j \<noteq> DONE) js))"
proof -
  have 1: "\<exists>s'. run g [Main_step p, Main_step p, Main_step p, Main_step p] s = Some s' \<and>
         visited s' = (visited s)[idx := PROCESSING] \<and>
         head s' = head s @ [create_task Execute idx (Some Free)] \<and>
         created s' = created s + 1 \<and> sum_v s' = sum_v s \<and> main_pc s' = M_wait_lock"
    if "main_pc s = M_process_node_lock idx" "graph_mutex s = None" "mutex s = None"
      "idx < length (visited s)"
    using that by (simp add: main_step_def enqueue_task_def)
  have 2: "\<exists>s'. run g [Main_step p, Main_step p, Main_step p, Main_step p,
                  Worker_step 0 p, Worker_step 0 p, Worker_step 0 p] s = Some s' \<and>
         sum_v s' = sum_v s + info (g ! idx) \<and>
         accumulated s' = accumulated s @ [idx] \<and>
         visited s' = visited s"
    if "main_pc s = M_process_node_lock idx" "graph_mutex s = None" "mutex s = None"
      "idx < length (visited s)" "visited s ! idx = DONE"
      "idx < length g" "threads s = [W_dequeue_lock]" "head s = []"
    using that
    by (auto simp add: main_step_def thread_loop_function_def execute_enter_def enqueue_task_def
        dequeue_task_cases cond_signal_def waiting_def create_task_def list_update_same_conv)
  have 3: "visited s1 = visited s \<and> created s1 = created s + 1 \<and>
      (\<exists>js. accumulated s2 = accumulated s @ js \<and> distinct js \<and>
         sum_v s2 = sum_v s + sum_list (map (\<lambda>j. info (g ! j)) js) \<and>
         list_all (\<lambda>j. j < length (visited s) \<and> visited s ! j \<noteq> DONE) js)"
    if "main_pc s = M_process_node_lock idx" "visited s ! idx = PROCESSING"
      "step g (Main_step p) s = Some s1" "run g es s1 = Some s2"
  proof -
    note a = reclaim_step [OF that(1,2,3)]
    from added_once [OF that(4) a(4)] a show ?thesis by simp
  qed
  from 1 2 3 show ?thesis by blast
qed

theorem process_node_claims_unconditionally_witness:
  "visited reseed_state ! 0 = DONE \<and> sum_v reseed_state = 3 \<and>
   accumulated reseed_state = [0, 1] \<and>
   (\<exists>s'. run cycle_graph [Main_step 0, Main_step 0, Main_step 0, Main_step 0] reseed_state =
      Some s' \<and> visited s' = [PROCESSING, DONE] \<and>
      head s' = [create_task Execute 0 (Some Free)]) \<and>
   (\<exists>s'. run cycle_graph [Main_step 0, Main_step 0, Main_step 0, Main_step 0,
        Worker_step 0 0, Worker_step 0 0, Worker_step 0 0] reseed_state = Some s' \<and>
      sum_v s' = 4 \<and> accumulated s' = [0, 1, 0]) \<and>
   visited reclaim_state ! 0 = PROCESSING \<and>
   run cycle_graph (Main_step 0 # reclaim_schedule) reclaim_state = Some reclaim_done \<and>
   (\<exists>js. accumulated reclaim_done = accumulated reclaim_state @ js \<and> distinct js \<and>
      sum_v reclaim_done = sum_v reclaim_state + sum_list (map (\<lambda>j. info (cycle_graph ! j)) js))"
proof -
  have pre: "main_pc reseed_state = M_process_node_lock 0 \<and> graph_mutex reseed_state = None \<and>
    mutex reseed_state = None \<and> 0 < length (visited reseed_state)"
    by (simp add: reseed_state_def cycle_done_def)
  have more: "visited reseed_state ! 0 = DONE \<and> 0 < length cycle_graph \<and>
      threads reseed_state = [W_dequeue_lock] \<and> head reseed_state = []"
    by (simp add: reseed_state_def cycle_done_def cycle_graph_def)
  note t = process_node_claims_unconditionally [of reseed_state 0 cycle_graph 0]
  from t pre obtain s1 where s1:
    "run cycle_graph [Main_step 0, Main_step 0, Main_step 0, Main_step 0] reseed_state = Some s1"
    "visited s1 = (visited reseed_state)[0 := PROCESSING]"
    "head s1 = head reseed_state @ [create_task Execute 0 (Some Free)]"
    by blast
  from t pre more obtain s2 where s2:
    "run cycle_graph [Main_step 0, Main_step 0, Main_step 0, Main_step 0,
        Worker_step 0 0, Worker_step 0 0, Worker_step 0 0] reseed_state = Some s2"
    "sum_v s2 = sum_v reseed_state + info (cycle_graph ! 0)"
    "accumulated s2 = accumulated reseed_state @ [0]"
    by blast
  have "visited s1 = [PROCESSING, DONE]" "head s1 = [create_task Execute 0 (Some Free)]"
    using s1(2,3) by (simp_all add: reseed_state_def cycle_done_def)
  moreover have "sum_v s2 = 4" "accumulated s2 = [0, 1, 0]"
    using s2(2,3) by (simp_all add: reseed_state_def cycle_done_def cycle_graph_def)
  moreover have "visited reseed_state ! 0 = DONE" "sum_v reseed_state = 3"
    "accumulated reseed_state = [0, 1]"
    by (simp_all add: reseed_state_def cycle_done_def)
  ultimately have a: "visited reseed_state ! 0 = DONE \<and> sum_v reseed_state = 3 \<and>
   accumulated reseed_state = [0, 1] \<and>
   (\<exists>s'. run cycle_graph [Main_step 0, Main_step 0, Main_step 0, Main_step 0] reseed_state =
      Some s' \<and> visited s' = [PROCESSING, DONE] \<and>
      head s' = [create_task Execute 0 (Some Free)]) \<and>
   (\<exists>s'. run cycle_graph [Main_step 0, Main_step 0, Main_step 0, Main_step 0,
        Worker_step 0 0, Worker_step 0 0, Worker_step 0 0] reseed_state = Some s' \<and>
      sum_v s' = 4 \<and> accumulated s' = [0, 1, 0])"
    using s1(1) s2(1) by blast
  have c: "main_pc reclaim_state = M_process_node_lock 0 \<and> visited reclaim_state ! 0 = PROCESSING"
    by (simp add: reclaim_state_def seeded_state_def)
  have st: "step cycle_graph (Main_step 0) reclaim_state =
      Some (reclaim_state\<lparr>graph_mutex := Some Main_thread, created := 2,
        main_pc := M_enqueue_lock (create_task Execute 0 (Some Free))\<rparr>)"
    by code_simp
  have r: "run cycle_graph reclaim_schedule
      (reclaim_state\<lparr>graph_mutex := Some Main_thread, created := 2,
        main_pc := M_enqueue_lock (create_task Execute 0 (Some Free))\<rparr>) = Some reclaim_done"
    by code_simp
  from process_node_claims_unconditionally [of reclaim_state 0 cycle_graph 0
      "reclaim_state\<lparr>graph_mutex := Some Main_thread, created := 2,
        main_pc := M_enqueue_lock (create_task Execute 0 (Some Free))\<rparr>" reclaim_schedule
      reclaim_done] c st r
  have b: "\<exists>js. accumulated reclaim_done = accumulated reclaim_state @ js \<and> distinct js \<and>
      sum_v reclaim_done = sum_v reclaim_state + sum_list (map (\<lambda>j. info (cycle_graph ! j)) js)"
    by blast
  have d: "run cycle_graph (Main_step 0 # reclaim_schedule) reclaim_state = Some reclaim_done"
    using st r by simp
  from a b c d show ?thesis by blast
qed

text \<open>
  Seeding a node that is \<^verbatim>\<open>PROCESSING\<close> does not make its weight count twice. On the
  cycle, \<^verbatim>\<open>process_node(0)\<close> is called again while the first task of node 0 is still in
  the queue: two tasks for node 0 are enqueued, the first adds its weight, the second finds
  the node \<^verbatim>\<open>DONE\<close> and adds nothing, and the accumulator ends at 3, not 4.
\<close>

theorem process_node_reclaim_adds_once:
  "run cycle_graph [Main_step 0, Main_step 0, Main_step 0, Main_step 0]
     (create_threadpool cycle_graph 1 0) = Some seeded_state \<and>
   reclaim_state = seeded_state\<lparr>main_pc := M_process_node_lock 0\<rparr> \<and>
   visited reclaim_state ! 0 = PROCESSING \<and>
   run cycle_graph (Main_step 0 # reclaim_schedule) reclaim_state = Some reclaim_done \<and>
   enqueued reclaim_done = [0, 0, 1] \<and> accumulated reclaim_done = [0, 1] \<and>
   info (cycle_graph ! 0) = 1 \<and> sum_v reclaim_state = 0 \<and> sum_v reclaim_done = 3 \<and>
   sum_v reclaim_done \<noteq> 4 \<and>
   threads reclaim_done = [W_exited] \<and> head reclaim_done = []"
proof -
  have a: "run cycle_graph [Main_step 0, Main_step 0, Main_step 0, Main_step 0]
     (create_threadpool cycle_graph 1 0) = Some seeded_state"
    by code_simp
  have b: "run cycle_graph (Main_step 0 # reclaim_schedule) reclaim_state = Some reclaim_done"
    by code_simp
  from a b show ?thesis
    by (simp add: reclaim_state_def seeded_state_def reclaim_done_def cycle_graph_def)
qed

text \<open>
  C10. The accumulator and the weights are 32-bit machine integers. The addition that
  \<^verbatim>\<open>execute\<close> performs is an addition modulo \<open>2 ^ 32\<close>: read as unsigned values the sum is
  reduced modulo \<open>2 ^ 32\<close>, read as C \<^verbatim>\<open>int\<close>s it is the two's complement wrap-around of
  the mathematical sum. So the value printed at the end of a run is the wrapped sum of the
  weights of the reachable nodes, not their unbounded sum, whenever that sum leaves the
  range of \<^verbatim>\<open>int\<close>. (ISO C leaves signed overflow undefined; the model takes the
  wrap-around of two's complement machines, as the claim does.)
\<close>

theorem sum_wraps_at_32_bits:
  "(graph_mutex s = None \<and> argument t < length (visited s) \<and> argument t < length g \<and>
    visited s ! argument t = PROCESSING \<longrightarrow>
      (\<exists>s'. execute_enter g w t s = Some s' \<and>
         sum_v s' = sum_v s + info (g ! argument t) \<and>
         uint (sum_v s') = (uint (sum_v s) + uint (info (g ! argument t))) mod 2 ^ 32 \<and>
         sint (sum_v s') = signed_take_bit 31 (sint (sum_v s) + sint (info (g ! argument t))))) \<and>
   (0 < n \<and> run g es (create_threadpool g n k) = Some s' \<and> main_pc s' = M_done \<longrightarrow>
      sint (sum_v s') = signed_take_bit 31 (\<Sum>j\<in>reach g. sint (info (g ! j))))"
proof -
  have "sint (sum_v s') = signed_take_bit 31 (\<Sum>j\<in>reach g. sint (info (g ! j)))"
    if "0 < n" "run g es (create_threadpool g n k) = Some s'" "main_pc s' = M_done"
  proof -
    from invariant_run [OF that(2) invariant_init [OF that(1)]] have "invariant g s'" .
    from final_sum(3) [OF this] that(3) have "sum_v s' = (\<Sum>j\<in>reach g. info (g ! j))" by simp
    also have "\<dots> = word_of_int (\<Sum>j\<in>reach g. sint (info (g ! j)))"
      by (rule word_sum_sint)
    finally have e: "sum_v s' = word_of_int (\<Sum>j\<in>reach g. sint (info (g ! j)))" .
    have "sint (sum_v s') = sint (word_of_int (\<Sum>j\<in>reach g. sint (info (g ! j))) :: 32 word)"
      by (simp only: e)
    also have "\<dots> = signed_take_bit (LENGTH(32) - 1) (\<Sum>j\<in>reach g. sint (info (g ! j)))"
      by (rule sint_sbintrunc')
    finally show ?thesis by simp
  qed
  then show ?thesis
    by (simp add: execute_enter_def uint_word_ariths sint_word_add)
qed

theorem sum_wraps_at_32_bits_witness:
  "sint (sum_v wrap_before) = 2147483647 \<and>
   sint (info (wrap_graph ! 1)) = 1 \<and>
   (\<exists>s'. execute_enter wrap_graph 0 (create_task Execute 1 (Some Free)) wrap_before = Some s' \<and>
      sint (sum_v s') = - 2147483648) \<and>
   run wrap_graph wrap_schedule (create_threadpool wrap_graph 1 0) = Some wrap_done \<and>
   main_pc wrap_done = M_done \<and>
   (\<Sum>j\<in>reach wrap_graph. sint (info (wrap_graph ! j))) = 2147483648 \<and>
   sint (sum_v wrap_done) =
     signed_take_bit 31 (\<Sum>j\<in>reach wrap_graph. sint (info (wrap_graph ! j))) \<and>
   sint (sum_v wrap_done) = - 2147483648"
proof -
  have r: "run wrap_graph wrap_schedule (create_threadpool wrap_graph 1 0) = Some wrap_done"
    by code_simp
  have m: "main_pc wrap_done = M_done" by (simp add: wrap_done_def)
  have z: "0 < (1::nat)" by simp
  have pre: "graph_mutex wrap_before = None \<and>
      argument (create_task Execute 1 (Some Free)) < length (visited wrap_before) \<and>
      argument (create_task Execute 1 (Some Free)) < length wrap_graph \<and>
      visited wrap_before ! argument (create_task Execute 1 (Some Free)) = PROCESSING"
    by (simp add: wrap_before_def wrap_graph_def create_task_def)
  note t = sum_wraps_at_32_bits [of wrap_before "create_task Execute 1 (Some Free)" wrap_graph 0 1
      wrap_schedule 0 wrap_done]
  from t z r m have w: "sint (sum_v wrap_done) =
      signed_take_bit 31 (\<Sum>j\<in>reach wrap_graph. sint (info (wrap_graph ! j)))"
    by blast
  from t pre obtain s1 where s1:
    "execute_enter wrap_graph 0 (create_task Execute 1 (Some Free)) wrap_before = Some s1"
    "sint (sum_v s1) = signed_take_bit 31 (sint (sum_v wrap_before) +
       sint (info (wrap_graph ! argument (create_task Execute 1 (Some Free)))))"
    by blast
  have b: "sint (sum_v wrap_before) = 2147483647" "sint (info (wrap_graph ! 1)) = 1"
    by (simp_all add: wrap_before_def wrap_graph_def)
  have "sint (sum_v s1) = - 2147483648"
    using s1(2) by (simp add: wrap_before_def wrap_graph_def create_task_def)
  with s1(1) have e: "\<exists>s'. execute_enter wrap_graph 0 (create_task Execute 1 (Some Free))
      wrap_before = Some s' \<and> sint (sum_v s') = - 2147483648"
    by blast
  have u: "(\<Sum>j\<in>reach wrap_graph. sint (info (wrap_graph ! j))) = 2147483648"
    unfolding reach_wrap by (simp add: wrap_graph_def)
  have v: "sint (sum_v wrap_done) = - 2147483648"
    by (simp add: wrap_done_def)
  from r m w b e u v show ?thesis by blast
qed

end
